theory Spec2Isabelle
  imports Main "HOL-Library.Multiset"
begin

section \<open>The memory model\<close>

text \<open>
  The container of \<^verbatim>\<open>src/list.hpp\<close> is a pointer structure, and what its operations do
  depends on which pointers alias. The model therefore keeps an explicit store.
  A pointer is an optional address (\<open>None\<close> is \<^verbatim>\<open>nullptr\<close>). The store maps the
  addresses of the live nodes to their fields and the addresses of the live list objects
  to theirs; an address that the store does not map is unallocated or freed.

  A node's \<^verbatim>\<open>T *val\<close> owns the value it points to and no two nodes share one, so the
  field is modelled as the optional value itself (\<open>None\<close> for the null pointer of a
  sentinel). \<^verbatim>\<open>size_t sz\<close> is a natural number below \<open>2^64\<close>. Counting up never
  reaches \<open>2^64\<close>, since every counted node occupies memory; counting down from zero,
  and subtracting more than the count, wrap around as \<^verbatim>\<open>size_t\<close> does.

  \<^verbatim>\<open>new\<close> is an external collaborator. The model hands out the address \<open>brk\<close> and
  increments it, so a fresh node never has the address of a node that is or was live.
\<close>

type_synonym addr = nat
type_synonym ptr = "addr option"

record 'a node =
  prev :: ptr
  next' :: ptr
  val :: "'a option"

record sjtu_list =
  head :: ptr
  tail :: ptr
  sz :: nat

record 'a state =
  nodes :: "addr \<Rightarrow> 'a node option"
  objs :: "addr \<Rightarrow> sjtu_list option"
  brk :: addr

record iterator =
  cur :: ptr
  owner :: ptr

type_synonym const_iterator = iterator

text \<open>
  The two exceptions of the source, and the outcome that C++ leaves undefined: a read or
  a write through a null or dangling pointer. Every \<^verbatim>\<open>throw\<close> of the source comes before
  the first write of its operation, so an operation that throws leaves the store as it
  was and the error value carries no store.
\<close>

datatype error = invalid_iterator | container_is_empty | undefined_behaviour

definition ebind :: "error + 'b \<Rightarrow> ('b \<Rightarrow> error + 'c) \<Rightarrow> error + 'c" where
  "ebind m f = (case m of Inl e \<Rightarrow> Inl e | Inr x \<Rightarrow> f x)"

subsection \<open>Reading and writing through pointers\<close>

definition node_at :: "'a state \<Rightarrow> ptr \<Rightarrow> error + 'a node" where
  "node_at S p =
     (case p of None \<Rightarrow> Inl undefined_behaviour
      | Some a \<Rightarrow> (case nodes S a of None \<Rightarrow> Inl undefined_behaviour | Some n \<Rightarrow> Inr n))"

definition get_prev :: "'a state \<Rightarrow> ptr \<Rightarrow> error + ptr" where
  "get_prev S p = ebind (node_at S p) (\<lambda>n. Inr (prev n))"

definition get_next :: "'a state \<Rightarrow> ptr \<Rightarrow> error + ptr" where
  "get_next S p = ebind (node_at S p) (\<lambda>n. Inr (next' n))"

definition get_val :: "'a state \<Rightarrow> ptr \<Rightarrow> error + 'a option" where
  "get_val S p = ebind (node_at S p) (\<lambda>n. Inr (val n))"

definition put_node :: "'a state \<Rightarrow> ptr \<Rightarrow> ('a node \<Rightarrow> 'a node) \<Rightarrow> error + 'a state" where
  "put_node S p f =
     (case p of None \<Rightarrow> Inl undefined_behaviour
      | Some a \<Rightarrow> (case nodes S a of None \<Rightarrow> Inl undefined_behaviour
                   | Some n \<Rightarrow> Inr (S\<lparr>nodes := (nodes S)(a \<mapsto> f n)\<rparr>)))"

definition set_prev :: "'a state \<Rightarrow> ptr \<Rightarrow> ptr \<Rightarrow> error + 'a state" where
  "set_prev S p x = put_node S p (\<lambda>n. n\<lparr>prev := x\<rparr>)"

definition set_next :: "'a state \<Rightarrow> ptr \<Rightarrow> ptr \<Rightarrow> error + 'a state" where
  "set_next S p x = put_node S p (\<lambda>n. n\<lparr>next' := x\<rparr>)"

definition set_val :: "'a state \<Rightarrow> ptr \<Rightarrow> 'a option \<Rightarrow> error + 'a state" where
  "set_val S p x = put_node S p (\<lambda>n. n\<lparr>val := x\<rparr>)"

text \<open>\<^verbatim>\<open>new node()\<close> and \<^verbatim>\<open>new node(value)\<close>: both links null.\<close>

definition new_node :: "'a state \<Rightarrow> 'a option \<Rightarrow> ptr \<times> 'a state" where
  "new_node S v =
     (Some (brk S),
      S\<lparr>nodes := (nodes S)(brk S \<mapsto> \<lparr>prev = None, next' = None, val = v\<rparr>),
        brk := Suc (brk S)\<rparr>)"

text \<open>\<^verbatim>\<open>delete p\<close>: nothing happens on a null pointer; the node's value goes with it.\<close>

definition delete_node :: "'a state \<Rightarrow> ptr \<Rightarrow> error + 'a state" where
  "delete_node S p =
     (case p of None \<Rightarrow> Inr S
      | Some a \<Rightarrow> (case nodes S a of None \<Rightarrow> Inl undefined_behaviour
                   | Some n \<Rightarrow> Inr (S\<lparr>nodes := (nodes S)(a := None)\<rparr>)))"

definition list_at :: "'a state \<Rightarrow> ptr \<Rightarrow> error + sjtu_list" where
  "list_at S l =
     (case l of None \<Rightarrow> Inl undefined_behaviour
      | Some a \<Rightarrow> (case objs S a of None \<Rightarrow> Inl undefined_behaviour | Some L \<Rightarrow> Inr L))"

definition put_list :: "'a state \<Rightarrow> addr \<Rightarrow> (sjtu_list \<Rightarrow> sjtu_list) \<Rightarrow> error + 'a state" where
  "put_list S this f =
     (case objs S this of None \<Rightarrow> Inl undefined_behaviour
      | Some L \<Rightarrow> Inr (S\<lparr>objs := (objs S)(this \<mapsto> f L)\<rparr>))"

definition set_head :: "'a state \<Rightarrow> addr \<Rightarrow> ptr \<Rightarrow> error + 'a state" where
  "set_head S this x = put_list S this (\<lambda>L. L\<lparr>head := x\<rparr>)"

definition set_tail :: "'a state \<Rightarrow> addr \<Rightarrow> ptr \<Rightarrow> error + 'a state" where
  "set_tail S this x = put_list S this (\<lambda>L. L\<lparr>tail := x\<rparr>)"

definition set_sz :: "'a state \<Rightarrow> addr \<Rightarrow> nat \<Rightarrow> error + 'a state" where
  "set_sz S this n = put_list S this (\<lambda>L. L\<lparr>sz := n\<rparr>)"

text \<open>\<^verbatim>\<open>++sz\<close> and \<^verbatim>\<open>--sz\<close>.\<close>

definition inc_sz :: "'a state \<Rightarrow> addr \<Rightarrow> error + 'a state" where
  "inc_sz S this = put_list S this (\<lambda>L. L\<lparr>sz := sz L + 1\<rparr>)"

definition dec_sz :: "'a state \<Rightarrow> addr \<Rightarrow> error + 'a state" where
  "dec_sz S this =
     put_list S this (\<lambda>L. L\<lparr>sz := (if sz L = 0 then 2 ^ 64 - 1 else sz L - 1)\<rparr>)"

section \<open>The protected helpers\<close>

text \<open>
  \<^verbatim>\<open>node *insert(node *pos, node *cur)\<close> and \<^verbatim>\<open>node *erase(node *pos)\<close>. No public
  operation calls them.
\<close>

definition insert_node :: "'a state \<Rightarrow> addr \<Rightarrow> ptr \<Rightarrow> ptr \<Rightarrow> error + ptr \<times> 'a state" where
  "insert_node S this pos c =
     ebind (get_prev S pos) (\<lambda>pr.
     ebind (set_next S c pos) (\<lambda>S.
     ebind (set_prev S c pr) (\<lambda>S.
     ebind (set_prev S pos c) (\<lambda>S.
     ebind (if pr \<noteq> None then set_next S pr c else set_head S this c) (\<lambda>S.
     ebind (inc_sz S this) (\<lambda>S.
     Inr (c, S)))))))"

definition erase_node :: "'a state \<Rightarrow> addr \<Rightarrow> ptr \<Rightarrow> error + ptr \<times> 'a state" where
  "erase_node S this pos =
     ebind (get_prev S pos) (\<lambda>p.
     ebind (get_next S pos) (\<lambda>n.
     ebind (if p \<noteq> None then set_next S p n else set_head S this n) (\<lambda>S.
     ebind (if n \<noteq> None then set_prev S n p else set_tail S this p) (\<lambda>S.
     ebind (set_next S pos None) (\<lambda>S.
     ebind (set_prev S pos None) (\<lambda>S.
     ebind (dec_sz S this) (\<lambda>S.
     Inr (pos, S))))))))"

section \<open>Iterators\<close>

text \<open>
  \<^verbatim>\<open>iterator\<close> and \<^verbatim>\<open>const_iterator\<close> carry the same two fields and the same code. The
  pre-forms return the iterator as updated; the post-forms return the copy made on entry
  together with the iterator as updated. The condition
  \<^verbatim>\<open>owner == nullptr || cur == nullptr || cur == owner->tail\<close> reads \<^verbatim>\<open>owner->tail\<close>
  only when both pointers are non-null.
\<close>

text \<open>\<^verbatim>\<open>iterator()\<close> and \<^verbatim>\<open>const_iterator()\<close>\<close>

definition iterator_default :: iterator where
  "iterator_default = \<lparr>cur = None, owner = None\<rparr>"

definition const_iterator_default :: const_iterator where
  "const_iterator_default = \<lparr>cur = None, owner = None\<rparr>"

definition iterator_post_inc :: "'a state \<Rightarrow> iterator \<Rightarrow> error + iterator \<times> iterator" where
  "iterator_post_inc S it =
     (let tmp = it in
      if owner it = None \<or> cur it = None then Inl invalid_iterator
      else ebind (list_at S (owner it)) (\<lambda>L.
           if cur it = tail L then Inl invalid_iterator
           else ebind (get_next S (cur it)) (\<lambda>n. Inr (tmp, it\<lparr>cur := n\<rparr>))))"

definition iterator_pre_inc :: "'a state \<Rightarrow> iterator \<Rightarrow> error + iterator" where
  "iterator_pre_inc S it =
     (if owner it = None \<or> cur it = None then Inl invalid_iterator
      else ebind (list_at S (owner it)) (\<lambda>L.
           if cur it = tail L then Inl invalid_iterator
           else ebind (get_next S (cur it)) (\<lambda>n. Inr (it\<lparr>cur := n\<rparr>))))"

definition iterator_post_dec :: "'a state \<Rightarrow> iterator \<Rightarrow> error + iterator \<times> iterator" where
  "iterator_post_dec S it =
     (let tmp = it in
      if owner it = None \<or> cur it = None then Inl invalid_iterator
      else ebind (list_at S (owner it)) (\<lambda>L.
           if cur it = head L then Inl invalid_iterator
           else if cur it = tail L then
             (if sz L = 0 then Inl invalid_iterator
              else ebind (get_prev S (tail L)) (\<lambda>p. Inr (tmp, it\<lparr>cur := p\<rparr>)))
           else ebind (get_prev S (cur it)) (\<lambda>p.
             if p = head L then Inl invalid_iterator
             else Inr (tmp, it\<lparr>cur := p\<rparr>))))"

definition iterator_pre_dec :: "'a state \<Rightarrow> iterator \<Rightarrow> error + iterator" where
  "iterator_pre_dec S it =
     (if owner it = None \<or> cur it = None then Inl invalid_iterator
      else ebind (list_at S (owner it)) (\<lambda>L.
           if cur it = head L then Inl invalid_iterator
           else if cur it = tail L then
             (if sz L = 0 then Inl invalid_iterator
              else ebind (get_prev S (tail L)) (\<lambda>p. Inr (it\<lparr>cur := p\<rparr>)))
           else ebind (get_prev S (cur it)) (\<lambda>p.
             if p = head L then Inl invalid_iterator
             else Inr (it\<lparr>cur := p\<rparr>))))"

text \<open>\<^verbatim>\<open>operator*\<close> and \<^verbatim>\<open>operator->\<close>: the value that \<^verbatim>\<open>cur->val\<close> points to.\<close>

definition iterator_deref :: "'a state \<Rightarrow> iterator \<Rightarrow> error + 'a" where
  "iterator_deref S it =
     (if owner it = None \<or> cur it = None then Inl invalid_iterator
      else ebind (get_val S (cur it)) (\<lambda>v.
           case v of None \<Rightarrow> Inl invalid_iterator | Some x \<Rightarrow> Inr x))"

definition iterator_arrow :: "'a state \<Rightarrow> iterator \<Rightarrow> error + 'a" where
  "iterator_arrow S it =
     (if owner it = None \<or> cur it = None then Inl invalid_iterator
      else ebind (get_val S (cur it)) (\<lambda>v.
           case v of None \<Rightarrow> Inl invalid_iterator | Some x \<Rightarrow> Inr x))"

text \<open>The four comparisons of \<^verbatim>\<open>iterator\<close>, in the order of the source.\<close>

definition iterator_eq :: "iterator \<Rightarrow> iterator \<Rightarrow> bool" where
  "iterator_eq it rhs = (cur it = cur rhs)"

definition iterator_eq_const :: "iterator \<Rightarrow> const_iterator \<Rightarrow> bool" where
  "iterator_eq_const it rhs = (cur it = cur rhs)"

definition iterator_ne :: "iterator \<Rightarrow> iterator \<Rightarrow> bool" where
  "iterator_ne it rhs = (\<not> iterator_eq it rhs)"

definition iterator_ne_const :: "iterator \<Rightarrow> const_iterator \<Rightarrow> bool" where
  "iterator_ne_const it rhs = (cur it \<noteq> cur rhs)"

text \<open>\<^verbatim>\<open>const_iterator\<close>: the converting constructor and the same operations again.\<close>

definition const_iterator_of :: "iterator \<Rightarrow> const_iterator" where
  "const_iterator_of it = \<lparr>cur = cur it, owner = owner it\<rparr>"

definition const_iterator_post_inc ::
  "'a state \<Rightarrow> const_iterator \<Rightarrow> error + const_iterator \<times> const_iterator" where
  "const_iterator_post_inc S it =
     (let tmp = it in
      if owner it = None \<or> cur it = None then Inl invalid_iterator
      else ebind (list_at S (owner it)) (\<lambda>L.
           if cur it = tail L then Inl invalid_iterator
           else ebind (get_next S (cur it)) (\<lambda>n. Inr (tmp, it\<lparr>cur := n\<rparr>))))"

definition const_iterator_pre_inc :: "'a state \<Rightarrow> const_iterator \<Rightarrow> error + const_iterator" where
  "const_iterator_pre_inc S it =
     (if owner it = None \<or> cur it = None then Inl invalid_iterator
      else ebind (list_at S (owner it)) (\<lambda>L.
           if cur it = tail L then Inl invalid_iterator
           else ebind (get_next S (cur it)) (\<lambda>n. Inr (it\<lparr>cur := n\<rparr>))))"

definition const_iterator_post_dec ::
  "'a state \<Rightarrow> const_iterator \<Rightarrow> error + const_iterator \<times> const_iterator" where
  "const_iterator_post_dec S it =
     (let tmp = it in
      if owner it = None \<or> cur it = None then Inl invalid_iterator
      else ebind (list_at S (owner it)) (\<lambda>L.
           if cur it = head L then Inl invalid_iterator
           else if cur it = tail L then
             (if sz L = 0 then Inl invalid_iterator
              else ebind (get_prev S (tail L)) (\<lambda>p. Inr (tmp, it\<lparr>cur := p\<rparr>)))
           else ebind (get_prev S (cur it)) (\<lambda>p.
             if p = head L then Inl invalid_iterator
             else Inr (tmp, it\<lparr>cur := p\<rparr>))))"

definition const_iterator_pre_dec :: "'a state \<Rightarrow> const_iterator \<Rightarrow> error + const_iterator" where
  "const_iterator_pre_dec S it =
     (if owner it = None \<or> cur it = None then Inl invalid_iterator
      else ebind (list_at S (owner it)) (\<lambda>L.
           if cur it = head L then Inl invalid_iterator
           else if cur it = tail L then
             (if sz L = 0 then Inl invalid_iterator
              else ebind (get_prev S (tail L)) (\<lambda>p. Inr (it\<lparr>cur := p\<rparr>)))
           else ebind (get_prev S (cur it)) (\<lambda>p.
             if p = head L then Inl invalid_iterator
             else Inr (it\<lparr>cur := p\<rparr>))))"

definition const_iterator_deref :: "'a state \<Rightarrow> const_iterator \<Rightarrow> error + 'a" where
  "const_iterator_deref S it =
     (if owner it = None \<or> cur it = None then Inl invalid_iterator
      else ebind (get_val S (cur it)) (\<lambda>v.
           case v of None \<Rightarrow> Inl invalid_iterator | Some x \<Rightarrow> Inr x))"

definition const_iterator_arrow :: "'a state \<Rightarrow> const_iterator \<Rightarrow> error + 'a" where
  "const_iterator_arrow S it =
     (if owner it = None \<or> cur it = None then Inl invalid_iterator
      else ebind (get_val S (cur it)) (\<lambda>v.
           case v of None \<Rightarrow> Inl invalid_iterator | Some x \<Rightarrow> Inr x))"

definition const_iterator_eq :: "const_iterator \<Rightarrow> const_iterator \<Rightarrow> bool" where
  "const_iterator_eq it rhs = (cur it = cur rhs)"

definition const_iterator_eq_iterator :: "const_iterator \<Rightarrow> iterator \<Rightarrow> bool" where
  "const_iterator_eq_iterator it rhs = (cur it = cur rhs)"

definition const_iterator_ne :: "const_iterator \<Rightarrow> const_iterator \<Rightarrow> bool" where
  "const_iterator_ne it rhs = (\<not> const_iterator_eq it rhs)"

definition const_iterator_ne_iterator :: "const_iterator \<Rightarrow> iterator \<Rightarrow> bool" where
  "const_iterator_ne_iterator it rhs = (\<not> const_iterator_eq_iterator it rhs)"

section \<open>The list\<close>

text \<open>
  Every member function takes the store and \<open>this\<close>, the address of the list object it
  is called on. No public operation assigns \<^verbatim>\<open>head\<close> or \<^verbatim>\<open>tail\<close> after construction,
  so an operation reads the list object once where the source names its fields again.
  \<^verbatim>\<open>*(p->val)\<close> is undefined when \<^verbatim>\<open>p->val\<close> is null.
\<close>

definition get_value :: "'a state \<Rightarrow> ptr \<Rightarrow> error + 'a" where
  "get_value S p =
     ebind (get_val S p) (\<lambda>v. case v of None \<Rightarrow> Inl undefined_behaviour | Some x \<Rightarrow> Inr x)"

definition list_init :: "'a state \<Rightarrow> addr \<Rightarrow> error + 'a state" where
  "list_init S this =
     (let (h, S) = new_node S None;
          (t, S) = new_node S None;
          S = S\<lparr>objs := (objs S)(this \<mapsto> \<lparr>head = h, tail = t, sz = 0\<rparr>)\<rparr>
      in ebind (set_next S h t) (\<lambda>S.
         ebind (set_prev S h None) (\<lambda>S.
         ebind (set_prev S t h) (\<lambda>S.
         ebind (set_next S t None) (\<lambda>S.
         set_sz S this 0)))))"

text \<open>\<^verbatim>\<open>list()\<close>\<close>

definition list_ctor :: "'a state \<Rightarrow> addr \<Rightarrow> error + 'a state" where
  "list_ctor S this = list_init S this"

definition list_front :: "'a state \<Rightarrow> addr \<Rightarrow> error + 'a" where
  "list_front S this =
     ebind (list_at S (Some this)) (\<lambda>L.
     if sz L = 0 then Inl container_is_empty
     else ebind (get_next S (head L)) (\<lambda>n. get_value S n))"

definition list_back :: "'a state \<Rightarrow> addr \<Rightarrow> error + 'a" where
  "list_back S this =
     ebind (list_at S (Some this)) (\<lambda>L.
     if sz L = 0 then Inl container_is_empty
     else ebind (get_prev S (tail L)) (\<lambda>p. get_value S p))"

definition list_begin :: "'a state \<Rightarrow> addr \<Rightarrow> error + iterator" where
  "list_begin S this =
     ebind (list_at S (Some this)) (\<lambda>L.
     if sz L \<noteq> 0 then ebind (get_next S (head L)) (\<lambda>n. Inr \<lparr>cur = n, owner = Some this\<rparr>)
     else Inr \<lparr>cur = tail L, owner = Some this\<rparr>)"

definition list_cbegin :: "'a state \<Rightarrow> addr \<Rightarrow> error + const_iterator" where
  "list_cbegin S this =
     ebind (list_at S (Some this)) (\<lambda>L.
     if sz L \<noteq> 0 then ebind (get_next S (head L)) (\<lambda>n. Inr \<lparr>cur = n, owner = Some this\<rparr>)
     else Inr \<lparr>cur = tail L, owner = Some this\<rparr>)"

definition list_end :: "'a state \<Rightarrow> addr \<Rightarrow> error + iterator" where
  "list_end S this = ebind (list_at S (Some this)) (\<lambda>L. Inr \<lparr>cur = tail L, owner = Some this\<rparr>)"

definition list_cend :: "'a state \<Rightarrow> addr \<Rightarrow> error + const_iterator" where
  "list_cend S this = ebind (list_at S (Some this)) (\<lambda>L. Inr \<lparr>cur = tail L, owner = Some this\<rparr>)"

definition list_empty :: "'a state \<Rightarrow> addr \<Rightarrow> error + bool" where
  "list_empty S this = ebind (list_at S (Some this)) (\<lambda>L. Inr (sz L = 0))"

definition list_size :: "'a state \<Rightarrow> addr \<Rightarrow> error + nat" where
  "list_size S this = ebind (list_at S (Some this)) (\<lambda>L. Inr (sz L))"

subsection \<open>clear\<close>

text \<open>
  A loop that follows pointers need not end on a store that is not a well-formed list,
  so each such loop is a partial function: \<open>None\<close> is the run that never returns.
\<close>

partial_function (option) clear_loop :: "'a state \<Rightarrow> ptr \<Rightarrow> ptr \<Rightarrow> (error + 'a state) option" where
  "clear_loop S p t =
     (if p \<noteq> t then
        (case ebind (get_next S p) (\<lambda>n. ebind (delete_node S p) (\<lambda>S. Inr (S, n))) of
           Inl e \<Rightarrow> Some (Inl e)
         | Inr (S, n) \<Rightarrow> clear_loop S n t)
      else Some (Inr S))"

declare clear_loop.simps [code]

definition list_clear :: "'a state \<Rightarrow> addr \<Rightarrow> (error + 'a state) option" where
  "list_clear S this =
     (case list_at S (Some this) of Inl e \<Rightarrow> Some (Inl e)
      | Inr L \<Rightarrow>
        (case get_next S (head L) of Inl e \<Rightarrow> Some (Inl e)
         | Inr p \<Rightarrow>
           (case clear_loop S p (tail L) of None \<Rightarrow> None
            | Some (Inl e) \<Rightarrow> Some (Inl e)
            | Some (Inr S) \<Rightarrow>
                Some (ebind (set_next S (head L) (tail L)) (\<lambda>S.
                      ebind (set_prev S (tail L) (head L)) (\<lambda>S.
                      set_sz S this 0))))))"

subsection \<open>insert and erase\<close>

text \<open>
  Two statement sequences recur in the source, written out each time; the model names
  them. Unlinking a node \<open>p\<close> from between its neighbours (in \<^verbatim>\<open>erase\<close>,
  \<^verbatim>\<open>merge\<close> and \<^verbatim>\<open>unique\<close>):
  \<^verbatim>\<open>p->prev->next = p->next; p->next->prev = p->prev;\<close>
  and linking a node \<open>nd\<close> in before \<open>p\<close> (in \<^verbatim>\<open>insert\<close> and \<^verbatim>\<open>merge\<close>):
  \<^verbatim>\<open>nd->prev = p->prev; nd->next = p; p->prev->next = nd; p->prev = nd;\<close>
\<close>

definition unlink :: "'a state \<Rightarrow> ptr \<Rightarrow> error + 'a state" where
  "unlink S p =
     ebind (get_prev S p) (\<lambda>pp.
     ebind (get_next S p) (\<lambda>pn.
     ebind (set_next S pp pn) (\<lambda>S.
     ebind (get_next S p) (\<lambda>pn.
     ebind (get_prev S p) (\<lambda>pp.
     set_prev S pn pp)))))"

definition link_before :: "'a state \<Rightarrow> ptr \<Rightarrow> ptr \<Rightarrow> error + 'a state" where
  "link_before S p nd =
     ebind (get_prev S p) (\<lambda>pp.
     ebind (set_prev S nd pp) (\<lambda>S.
     ebind (set_next S nd p) (\<lambda>S.
     ebind (get_prev S p) (\<lambda>pp.
     ebind (set_next S pp nd) (\<lambda>S.
     set_prev S p nd)))))"

definition list_insert :: "'a state \<Rightarrow> addr \<Rightarrow> iterator \<Rightarrow> 'a \<Rightarrow> error + iterator \<times> 'a state" where
  "list_insert S this pos value =
     (if owner pos \<noteq> Some this \<or> cur pos = None then Inl invalid_iterator
      else
        let p = cur pos;
            (nd, S) = new_node S (Some value)
        in ebind (link_before S p nd) (\<lambda>S.
           ebind (inc_sz S this) (\<lambda>S.
           Inr (\<lparr>cur = nd, owner = Some this\<rparr>, S))))"

definition list_erase :: "'a state \<Rightarrow> addr \<Rightarrow> iterator \<Rightarrow> error + iterator \<times> 'a state" where
  "list_erase S this pos =
     (if owner pos \<noteq> Some this \<or> cur pos = None then Inl invalid_iterator
      else
        ebind (list_at S (Some this)) (\<lambda>L.
        if sz L = 0 then Inl container_is_empty
        else
          let p = cur pos
          in ebind (if p = tail L then Inr True
                    else ebind (get_val S p) (\<lambda>v. Inr (v = None))) (\<lambda>bad.
             if bad then Inl invalid_iterator
             else
               ebind (get_next S p) (\<lambda>nxt.
               ebind (unlink S p) (\<lambda>S.
               ebind (delete_node S p) (\<lambda>S.
               ebind (dec_sz S this) (\<lambda>S.
               Inr (\<lparr>cur = nxt, owner = Some this\<rparr>, S))))))))"

definition list_push_back :: "'a state \<Rightarrow> addr \<Rightarrow> 'a \<Rightarrow> error + 'a state" where
  "list_push_back S this value =
     ebind (list_end S this) (\<lambda>e.
     ebind (list_insert S this e value) (\<lambda>(it, S). Inr S))"

definition list_pop_back :: "'a state \<Rightarrow> addr \<Rightarrow> error + 'a state" where
  "list_pop_back S this =
     ebind (list_at S (Some this)) (\<lambda>L.
     if sz L = 0 then Inl container_is_empty
     else ebind (get_prev S (tail L)) (\<lambda>p.
          ebind (list_erase S this \<lparr>cur = p, owner = Some this\<rparr>) (\<lambda>(it, S). Inr S)))"

definition list_push_front :: "'a state \<Rightarrow> addr \<Rightarrow> 'a \<Rightarrow> error + 'a state" where
  "list_push_front S this value =
     ebind (list_begin S this) (\<lambda>b.
     ebind (list_insert S this b value) (\<lambda>(it, S). Inr S))"

definition list_pop_front :: "'a state \<Rightarrow> addr \<Rightarrow> error + 'a state" where
  "list_pop_front S this =
     ebind (list_at S (Some this)) (\<lambda>L.
     if sz L = 0 then Inl container_is_empty
     else ebind (get_next S (head L)) (\<lambda>n.
          ebind (list_erase S this \<lparr>cur = n, owner = Some this\<rparr>) (\<lambda>(it, S). Inr S)))"

subsection \<open>Copy construction, assignment, destruction\<close>

partial_function (option) copy_loop ::
  "'a state \<Rightarrow> addr \<Rightarrow> ptr \<Rightarrow> ptr \<Rightarrow> (error + 'a state) option" where
  "copy_loop S this p ot =
     (if p \<noteq> ot then
        (case ebind (get_value S p) (\<lambda>v.
              ebind (list_push_back S this v) (\<lambda>S.
              ebind (get_next S p) (\<lambda>n. Inr (S, n)))) of
           Inl e \<Rightarrow> Some (Inl e)
         | Inr (S, n) \<Rightarrow> copy_loop S this n ot)
      else Some (Inr S))"

declare copy_loop.simps [code]

definition copy_from :: "'a state \<Rightarrow> addr \<Rightarrow> addr \<Rightarrow> (error + 'a state) option" where
  "copy_from S this other =
     (case list_at S (Some other) of Inl e \<Rightarrow> Some (Inl e)
      | Inr L' \<Rightarrow>
        (case get_next S (head L') of Inl e \<Rightarrow> Some (Inl e)
         | Inr p \<Rightarrow> copy_loop S this p (tail L')))"

text \<open>\<^verbatim>\<open>list(const list &other)\<close>\<close>

definition list_copy_ctor :: "'a state \<Rightarrow> addr \<Rightarrow> addr \<Rightarrow> (error + 'a state) option" where
  "list_copy_ctor S this other =
     (case list_init S this of Inl e \<Rightarrow> Some (Inl e)
      | Inr S \<Rightarrow> copy_from S this other)"

text \<open>\<^verbatim>\<open>operator=\<close>\<close>

definition list_assign :: "'a state \<Rightarrow> addr \<Rightarrow> addr \<Rightarrow> (error + 'a state) option" where
  "list_assign S this other =
     (if this = other then Some (Inr S)
      else (case list_clear S this of None \<Rightarrow> None
            | Some (Inl e) \<Rightarrow> Some (Inl e)
            | Some (Inr S) \<Rightarrow> copy_from S this other))"

text \<open>\<^verbatim>\<open>~list()\<close>: the list object is gone afterwards.\<close>

definition list_dtor :: "'a state \<Rightarrow> addr \<Rightarrow> (error + 'a state) option" where
  "list_dtor S this =
     (case list_clear S this of None \<Rightarrow> None
      | Some (Inl e) \<Rightarrow> Some (Inl e)
      | Some (Inr S) \<Rightarrow>
          Some (ebind (list_at S (Some this)) (\<lambda>L.
                ebind (delete_node S (head L)) (\<lambda>S.
                ebind (delete_node S (tail L)) (\<lambda>S.
                Inr (S\<lparr>objs := (objs S)(this := None)\<rparr>))))))"

subsection \<open>sort\<close>

text \<open>
  \<^verbatim>\<open>sjtu::sort\<close> comes from \<^verbatim>\<open>algorithm.hpp\<close>, which is not part of the sources; it is
  the parameter \<open>sort_fn\<close>, from a comparator and an array to the array as sorted in
  place (an array of another length is no result of sorting in place, and the model
  faults on it). The array \<^verbatim>\<open>arr\<close> has \<^verbatim>\<open>sz\<close> entries, at least two here: storing
  past its end is undefined, and so is sorting entries that the loop never stored. The comparator dereferences
  \<^verbatim>\<open>val\<close> of both nodes, which is undefined for a node without a value.
\<close>

partial_function (option) collect_loop ::
  "'a state \<Rightarrow> nat \<Rightarrow> ptr \<Rightarrow> ptr \<Rightarrow> ptr list \<Rightarrow> (error + ptr list) option" where
  "collect_loop S n p t arr =
     (if p \<noteq> t then
        (if n \<le> length arr then Some (Inl undefined_behaviour)
         else (case get_next S p of Inl e \<Rightarrow> Some (Inl e)
               | Inr q \<Rightarrow> collect_loop S n q t (arr @ [p])))
      else Some (Inr arr))"

declare collect_loop.simps [code]

definition node_less :: "'a::ord state \<Rightarrow> ptr \<Rightarrow> ptr \<Rightarrow> bool" where
  "node_less S a b =
     (case (get_value S a, get_value S b) of (Inr x, Inr y) \<Rightarrow> x < y | _ \<Rightarrow> False)"

definition has_value :: "'a state \<Rightarrow> ptr \<Rightarrow> bool" where
  "has_value S p = (case get_value S p of Inl e \<Rightarrow> False | Inr x \<Rightarrow> True)"

fun relink :: "'a state \<Rightarrow> ptr list \<Rightarrow> error + 'a state" where
  "relink S (a # b # arr) =
     ebind (set_next S a b) (\<lambda>S.
     ebind (set_prev S b a) (\<lambda>S.
     relink S (b # arr)))"
| "relink S arr = Inr S"

definition list_sort ::
  "((ptr \<Rightarrow> ptr \<Rightarrow> bool) \<Rightarrow> ptr list \<Rightarrow> ptr list) \<Rightarrow> 'a::ord state \<Rightarrow> addr \<Rightarrow>
     (error + 'a state) option" where
  "list_sort sort_fn S this =
     (case list_at S (Some this) of Inl e \<Rightarrow> Some (Inl e)
      | Inr L \<Rightarrow>
        if sz L \<le> 1 then Some (Inr S)
        else
          (case get_next S (head L) of Inl e \<Rightarrow> Some (Inl e)
           | Inr p \<Rightarrow>
             (case collect_loop S (sz L) p (tail L) [] of None \<Rightarrow> None
              | Some (Inl e) \<Rightarrow> Some (Inl e)
              | Some (Inr arr) \<Rightarrow>
                  if length arr \<noteq> sz L \<or> \<not> list_all (has_value S) arr
                  then Some (Inl undefined_behaviour)
                  else
                    let arr = sort_fn (node_less S) arr
                    in if length arr \<noteq> sz L then Some (Inl undefined_behaviour)
                       else
                         Some (ebind (set_next S (head L) (hd arr)) (\<lambda>S.
                               ebind (set_prev S (hd arr) (head L)) (\<lambda>S.
                               ebind (relink S arr) (\<lambda>S.
                               ebind (set_next S (last arr) (tail L)) (\<lambda>S.
                               set_prev S (tail L) (last arr)))))))))"

subsection \<open>merge\<close>

definition merge_step ::
  "'a::ord state \<Rightarrow> addr \<Rightarrow> addr \<Rightarrow> ptr \<Rightarrow> ptr \<Rightarrow> error + 'a state \<times> ptr \<times> ptr" where
  "merge_step S this other p1 p2 =
     ebind (get_value S p2) (\<lambda>v2.
     ebind (get_value S p1) (\<lambda>v1.
     if v2 < v1 then
       ebind (get_next S p2) (\<lambda>n2.
       ebind (unlink S p2) (\<lambda>S.
       ebind (link_before S p1 p2) (\<lambda>S.
       ebind (inc_sz S this) (\<lambda>S.
       ebind (dec_sz S other) (\<lambda>S.
       Inr (S, p1, n2))))))
     else
       ebind (get_next S p1) (\<lambda>n1. Inr (S, n1, p2))))"

partial_function (option) merge_loop ::
  "'a::ord state \<Rightarrow> addr \<Rightarrow> addr \<Rightarrow> ptr \<Rightarrow> ptr \<Rightarrow> ptr \<Rightarrow> ptr \<Rightarrow>
     (error + 'a state \<times> ptr) option" where
  "merge_loop S this other t ot p1 p2 =
     (if p1 \<noteq> t \<and> p2 \<noteq> ot then
        (case merge_step S this other p1 p2 of
           Inl e \<Rightarrow> Some (Inl e)
         | Inr (S, p1, p2) \<Rightarrow> merge_loop S this other t ot p1 p2)
      else Some (Inr (S, p2)))"

declare merge_loop.simps [code]

text \<open>\<^verbatim>\<open>for (node *q = first; ; q = q->next) { ++moved; if (q == last) break; }\<close>\<close>

partial_function (option) count_loop ::
  "'a state \<Rightarrow> ptr \<Rightarrow> ptr \<Rightarrow> nat \<Rightarrow> (error + nat) option" where
  "count_loop S q lst moved =
     (if q = lst then Some (Inr (Suc moved))
      else (case get_next S q of Inl e \<Rightarrow> Some (Inl e)
            | Inr n \<Rightarrow> count_loop S n lst (Suc moved)))"

declare count_loop.simps [code]

definition merge_rest ::
  "'a state \<Rightarrow> addr \<Rightarrow> addr \<Rightarrow> sjtu_list \<Rightarrow> sjtu_list \<Rightarrow> ptr \<Rightarrow> (error + 'a state) option" where
  "merge_rest S this other L L' p2 =
     (let first = p2
      in case ebind (get_prev S (tail L')) (\<lambda>lst.
              ebind (set_next S (head L') (tail L')) (\<lambda>S.
              ebind (set_prev S (tail L') (head L')) (\<lambda>S. Inr (S, lst)))) of
           Inl e \<Rightarrow> Some (Inl e)
         | Inr (S, lst) \<Rightarrow>
             (case count_loop S first lst 0 of None \<Rightarrow> None
              | Some (Inl e) \<Rightarrow> Some (Inl e)
              | Some (Inr moved) \<Rightarrow>
                  Some (ebind (put_list S other (\<lambda>L. L\<lparr>sz :=
                            (if moved \<le> sz L then sz L - moved
                             else sz L + 2 ^ 64 - moved)\<rparr>)) (\<lambda>S.
                        ebind (put_list S this (\<lambda>L. L\<lparr>sz := sz L + moved\<rparr>)) (\<lambda>S.
                        ebind (set_next S lst (tail L)) (\<lambda>S.
                        ebind (get_prev S (tail L)) (\<lambda>tp.
                        ebind (set_prev S first tp) (\<lambda>S.
                        ebind (get_prev S (tail L)) (\<lambda>tp.
                        ebind (set_next S tp first) (\<lambda>S.
                        set_prev S (tail L) lst))))))))))"

definition list_merge :: "'a::ord state \<Rightarrow> addr \<Rightarrow> addr \<Rightarrow> (error + 'a state) option" where
  "list_merge S this other =
     (if this = other then Some (Inr S)
      else
        (case list_at S (Some other) of Inl e \<Rightarrow> Some (Inl e)
         | Inr L' \<Rightarrow>
           if sz L' = 0 then Some (Inr S)
           else
             (case list_at S (Some this) of Inl e \<Rightarrow> Some (Inl e)
              | Inr L \<Rightarrow>
                (case ebind (get_next S (head L)) (\<lambda>p1.
                      ebind (get_next S (head L')) (\<lambda>p2. Inr (p1, p2))) of
                   Inl e \<Rightarrow> Some (Inl e)
                 | Inr (p1, p2) \<Rightarrow>
                   (case merge_loop S this other (tail L) (tail L') p1 p2 of None \<Rightarrow> None
                    | Some (Inl e) \<Rightarrow> Some (Inl e)
                    | Some (Inr (S, p2)) \<Rightarrow>
                        if p2 \<noteq> tail L' then merge_rest S this other L L' p2
                        else Some (Inr S))))))"

subsection \<open>reverse\<close>

text \<open>
  The loop runs \<^verbatim>\<open>sz / 2\<close> times whatever the store holds; the first argument of
  \<open>reverse_loop\<close> is the number of rounds still to run.
\<close>

fun reverse_loop :: "nat \<Rightarrow> 'a state \<Rightarrow> ptr \<Rightarrow> ptr \<Rightarrow> error + 'a state" where
  "reverse_loop 0 S l r = Inr S"
| "reverse_loop (Suc k) S l r =
     ebind (get_val S l) (\<lambda>tmp.
     ebind (get_val S r) (\<lambda>rv.
     ebind (set_val S l rv) (\<lambda>S.
     ebind (set_val S r tmp) (\<lambda>S.
     ebind (get_next S l) (\<lambda>l.
     ebind (get_prev S r) (\<lambda>r.
     reverse_loop k S l r))))))"

definition list_reverse :: "'a state \<Rightarrow> addr \<Rightarrow> error + 'a state" where
  "list_reverse S this =
     ebind (list_at S (Some this)) (\<lambda>L.
     if sz L \<le> 1 then Inr S
     else ebind (get_next S (head L)) (\<lambda>l.
          ebind (get_prev S (tail L)) (\<lambda>r.
          reverse_loop (sz L div 2) S l r)))"

subsection \<open>unique\<close>

text \<open>
  \<open>ne\<close> is \<^verbatim>\<open>operator!=\<close> of the value type. The inner loop's condition is
  \<^verbatim>\<open>n != tail && !(*(p->val) != *(n->val))\<close>.
\<close>

definition unique_cond ::
  "('a \<Rightarrow> 'a \<Rightarrow> bool) \<Rightarrow> 'a state \<Rightarrow> ptr \<Rightarrow> ptr \<Rightarrow> ptr \<Rightarrow> error + bool" where
  "unique_cond ne S t p n =
     (if n \<noteq> t then
        ebind (get_value S p) (\<lambda>x.
        ebind (get_value S n) (\<lambda>y. Inr (\<not> ne x y)))
      else Inr False)"

definition unique_drop :: "'a state \<Rightarrow> addr \<Rightarrow> ptr \<Rightarrow> error + 'a state \<times> ptr" where
  "unique_drop S this n =
     (let del = n
      in ebind (get_next S n) (\<lambda>n.
         ebind (unlink S del) (\<lambda>S.
         ebind (delete_node S del) (\<lambda>S.
         ebind (dec_sz S this) (\<lambda>S.
         Inr (S, n))))))"

partial_function (option) unique_inner ::
  "('a \<Rightarrow> 'a \<Rightarrow> bool) \<Rightarrow> 'a state \<Rightarrow> addr \<Rightarrow> ptr \<Rightarrow> ptr \<Rightarrow> ptr \<Rightarrow>
     (error + 'a state \<times> ptr) option" where
  "unique_inner ne S this t p n =
     (case unique_cond ne S t p n of Inl e \<Rightarrow> Some (Inl e)
      | Inr c \<Rightarrow>
          if c then
            (case unique_drop S this n of Inl e \<Rightarrow> Some (Inl e)
             | Inr (S, n) \<Rightarrow> unique_inner ne S this t p n)
          else Some (Inr (S, n)))"

declare unique_inner.simps [code]

partial_function (option) unique_loop ::
  "('a \<Rightarrow> 'a \<Rightarrow> bool) \<Rightarrow> 'a state \<Rightarrow> addr \<Rightarrow> ptr \<Rightarrow> ptr \<Rightarrow> (error + 'a state) option" where
  "unique_loop ne S this t p =
     (if p \<noteq> t then
        (case get_next S p of Inl e \<Rightarrow> Some (Inl e)
         | Inr n \<Rightarrow>
           (case unique_inner ne S this t p n of None \<Rightarrow> None
            | Some (Inl e) \<Rightarrow> Some (Inl e)
            | Some (Inr (S, n)) \<Rightarrow> unique_loop ne S this t n))
      else Some (Inr S))"

declare unique_loop.simps [code]

definition list_unique ::
  "('a \<Rightarrow> 'a \<Rightarrow> bool) \<Rightarrow> 'a state \<Rightarrow> addr \<Rightarrow> (error + 'a state) option" where
  "list_unique ne S this =
     (case list_at S (Some this) of Inl e \<Rightarrow> Some (Inl e)
      | Inr L \<Rightarrow>
        if sz L \<le> 1 then Some (Inr S)
        else (case get_next S (head L) of Inl e \<Rightarrow> Some (Inl e)
              | Inr p \<Rightarrow> unique_loop ne S this (tail L) p))"

section \<open>Traversal by a client\<close>

text \<open>
  The loop a client writes to read a list:
  \<^verbatim>\<open>for (auto it = l.begin(); it != l.end(); ++it) out.push_back(*it);\<close>
\<close>

partial_function (option) traverse_loop ::
  "'a state \<Rightarrow> iterator \<Rightarrow> iterator \<Rightarrow> 'a list \<Rightarrow> (error + 'a list) option" where
  "traverse_loop S it e out =
     (if iterator_ne it e then
        (case ebind (iterator_deref S it) (\<lambda>v.
              ebind (iterator_pre_inc S it) (\<lambda>it. Inr (v, it))) of
           Inl err \<Rightarrow> Some (Inl err)
         | Inr (v, it) \<Rightarrow> traverse_loop S it e (out @ [v]))
      else Some (Inr out))"

declare traverse_loop.simps [code]

definition traverse :: "'a state \<Rightarrow> addr \<Rightarrow> (error + 'a list) option" where
  "traverse S l =
     (case ebind (list_begin S l) (\<lambda>b. ebind (list_end S l) (\<lambda>e. Inr (b, e))) of
        Inl err \<Rightarrow> Some (Inl err)
      | Inr (b, e) \<Rightarrow> traverse_loop S b e [])"

section \<open>The list as a sequence of nodes\<close>

text \<open>
  The fields of the live nodes, seen as functions of the address: whether a node lives at
  it, and its two links and its value.
\<close>

definition alive :: "'a state \<Rightarrow> addr \<Rightarrow> bool" where
  "alive S a = (nodes S a \<noteq> None)"

definition nxt :: "'a state \<Rightarrow> addr \<Rightarrow> ptr" where
  "nxt S a = (case nodes S a of None \<Rightarrow> None | Some n \<Rightarrow> next' n)"

definition prv :: "'a state \<Rightarrow> addr \<Rightarrow> ptr" where
  "prv S a = (case nodes S a of None \<Rightarrow> None | Some n \<Rightarrow> prev n)"

definition vl :: "'a state \<Rightarrow> addr \<Rightarrow> 'a option" where
  "vl S a = (case nodes S a of None \<Rightarrow> None | Some n \<Rightarrow> val n)"

text \<open>The stores that the writes, \<^verbatim>\<open>new\<close> and \<^verbatim>\<open>delete\<close> produce.\<close>

definition upd_node :: "'a state \<Rightarrow> addr \<Rightarrow> ('a node \<Rightarrow> 'a node) \<Rightarrow> 'a state" where
  "upd_node S a f = S\<lparr>nodes := (nodes S)(a := map_option f (nodes S a))\<rparr>"

definition alloc :: "'a state \<Rightarrow> 'a option \<Rightarrow> 'a state" where
  "alloc S v =
     S\<lparr>nodes := (nodes S)(brk S \<mapsto> \<lparr>prev = None, next' = None, val = v\<rparr>), brk := Suc (brk S)\<rparr>"

definition free :: "'a state \<Rightarrow> addr \<Rightarrow> 'a state" where
  "free S a = S\<lparr>nodes := (nodes S)(a := None)\<rparr>"

text \<open>
  \<open>fpath f cs\<close>: each address of \<open>cs\<close> has the one after it as its \<open>f\<close>-link;
  \<open>bpath g cs\<close>: each address of \<open>cs\<close> has the one before it as its \<open>g\<close>-link.
\<close>

fun fpath :: "(addr \<Rightarrow> ptr) \<Rightarrow> addr list \<Rightarrow> bool" where
  "fpath f (x # y # zs) = (f x = Some y \<and> fpath f (y # zs))"
| "fpath f zs = True"

fun bpath :: "(addr \<Rightarrow> ptr) \<Rightarrow> addr list \<Rightarrow> bool" where
  "bpath g (x # y # zs) = (g y = Some x \<and> bpath g (y # zs))"
| "bpath g zs = True"

text \<open>
  The invariant of the data model. \<open>chain S h as t\<close>: from the head sentinel \<open>h\<close>
  through the nodes \<open>as\<close> to the tail sentinel \<open>t\<close> the store holds one sequence of
  distinct live nodes, the back-links mirror the forward-links, and \<open>h\<close> has no
  predecessor and \<open>t\<close> no successor. Every node of it has come from the allocator.
  \<open>is_list S l h as t\<close>: the list object at \<open>l\<close> has these sentinels, its count is the
  number of the nodes \<open>as\<close>, the sentinels hold no value and every other node holds one.
\<close>

definition chain :: "'a state \<Rightarrow> addr \<Rightarrow> addr list \<Rightarrow> addr \<Rightarrow> bool" where
  "chain S h as t \<longleftrightarrow>
     distinct (h # as @ [t]) \<and> list_all (\<lambda>a. alive S a \<and> a < brk S) (h # as @ [t]) \<and>
     fpath (nxt S) (h # as @ [t]) \<and> bpath (prv S) (h # as @ [t]) \<and>
     prv S h = None \<and> nxt S t = None"

definition is_list :: "'a state \<Rightarrow> addr \<Rightarrow> addr \<Rightarrow> addr list \<Rightarrow> addr \<Rightarrow> bool" where
  "is_list S l h as t \<longleftrightarrow>
     (case objs S l of None \<Rightarrow> False
      | Some L \<Rightarrow> head L = Some h \<and> tail L = Some t \<and> sz L = length as \<and> chain S h as t \<and>
          vl S h = None \<and> vl S t = None \<and> list_all (\<lambda>a. vl S a \<noteq> None) as)"

text \<open>The store after \<^verbatim>\<open>list<nat> a; a.push_back(1); a.push_back(3); a.push_back(5);\<close>
  with \<^verbatim>\<open>a\<close> at address 0.\<close>

definition store_135 :: "nat state" where
  "store_135 =
     \<lparr>nodes = [0 \<mapsto> \<lparr>prev = None, next' = Some 2, val = None\<rparr>,
               1 \<mapsto> \<lparr>prev = Some 4, next' = None, val = None\<rparr>,
               2 \<mapsto> \<lparr>prev = Some 0, next' = Some 3, val = Some 1\<rparr>,
               3 \<mapsto> \<lparr>prev = Some 2, next' = Some 4, val = Some 3\<rparr>,
               4 \<mapsto> \<lparr>prev = Some 3, next' = Some 1, val = Some 5\<rparr>],
      objs = [0 \<mapsto> \<lparr>head = Some 0, tail = Some 1, sz = 3\<rparr>],
      brk = 5\<rparr>"

text \<open>The store after \<^verbatim>\<open>list<nat> a;\<close> with \<^verbatim>\<open>a\<close> at address 0.\<close>

definition store_nil :: "nat state" where
  "store_nil =
     \<lparr>nodes = [0 \<mapsto> \<lparr>prev = None, next' = Some 1, val = None\<rparr>,
               1 \<mapsto> \<lparr>prev = Some 0, next' = None, val = None\<rparr>],
      objs = [0 \<mapsto> \<lparr>head = Some 0, tail = Some 1, sz = 0\<rparr>],
      brk = 2\<rparr>"

text \<open>
  The store after \<^verbatim>\<open>list<nat> a, b; a.push_back(5); b.push_back(3);\<close> with \<^verbatim>\<open>a\<close> at
  address 0 and \<^verbatim>\<open>b\<close> at address 1 (the nodes numbered as if \<^verbatim>\<open>a\<close> had been filled
  before \<^verbatim>\<open>b\<close> was constructed), and the store after \<^verbatim>\<open>a.merge(b)\<close> then.
\<close>

definition store_5_3 :: "nat state" where
  "store_5_3 =
     \<lparr>nodes = [0 \<mapsto> \<lparr>prev = None, next' = Some 2, val = None\<rparr>,
               1 \<mapsto> \<lparr>prev = Some 2, next' = None, val = None\<rparr>,
               2 \<mapsto> \<lparr>prev = Some 0, next' = Some 1, val = Some 5\<rparr>,
               3 \<mapsto> \<lparr>prev = None, next' = Some 5, val = None\<rparr>,
               4 \<mapsto> \<lparr>prev = Some 5, next' = None, val = None\<rparr>,
               5 \<mapsto> \<lparr>prev = Some 3, next' = Some 4, val = Some 3\<rparr>],
      objs = [0 \<mapsto> \<lparr>head = Some 0, tail = Some 1, sz = 1\<rparr>,
              1 \<mapsto> \<lparr>head = Some 3, tail = Some 4, sz = 1\<rparr>],
      brk = 6\<rparr>"

definition store_merged :: "nat state" where
  "store_merged =
     \<lparr>nodes = [0 \<mapsto> \<lparr>prev = None, next' = Some 5, val = None\<rparr>,
               1 \<mapsto> \<lparr>prev = Some 2, next' = None, val = None\<rparr>,
               2 \<mapsto> \<lparr>prev = Some 5, next' = Some 1, val = Some 5\<rparr>,
               3 \<mapsto> \<lparr>prev = None, next' = Some 4, val = None\<rparr>,
               4 \<mapsto> \<lparr>prev = Some 3, next' = None, val = None\<rparr>,
               5 \<mapsto> \<lparr>prev = Some 0, next' = Some 2, val = Some 3\<rparr>],
      objs = [0 \<mapsto> \<lparr>head = Some 0, tail = Some 1, sz = 2\<rparr>,
              1 \<mapsto> \<lparr>head = Some 3, tail = Some 4, sz = 0\<rparr>],
      brk = 6\<rparr>"

text \<open>A client's sequence of calls \<^verbatim>\<open>l.push_back(v)\<close>, one for each value of a list.\<close>

fun push_back_all :: "'a state \<Rightarrow> addr \<Rightarrow> 'a list \<Rightarrow> error + 'a state" where
  "push_back_all S l [] = Inr S"
| "push_back_all S l (v # vs) = ebind (list_push_back S l v) (\<lambda>S. push_back_all S l vs)"

text \<open>\<open>holds S as vs\<close>: the nodes \<open>as\<close> hold the values \<open>vs\<close>, in this order.\<close>

definition holds :: "'a state \<Rightarrow> addr list \<Rightarrow> 'a list \<Rightarrow> bool" where
  "holds S as vs \<longleftrightarrow> map (vl S) as = map Some vs"

text \<open>
  What the specification says of \<^verbatim>\<open>unique\<close>: of each run of consecutive elements that
  compare equal to the first element of the run, only that first element is kept.
\<close>

function keep_firsts :: "('b \<Rightarrow> 'b \<Rightarrow> bool) \<Rightarrow> 'b list \<Rightarrow> 'b list" where
  "keep_firsts eq [] = []"
| "keep_firsts eq (x # xs) = x # keep_firsts eq (dropWhile (eq x) xs)"
  by pat_completeness auto
termination
  by (relation "measure (\<lambda>(eq, xs). length xs)") (auto simp: length_dropWhile_le le_imp_less_Suc)


text \<open>The store after \<^verbatim>\<open>list<nat> a;\<close> and \<^verbatim>\<open>push_back\<close> of 1, 1, 2, 2, 1, with \<^verbatim>\<open>a\<close> at
  address 0.\<close>

definition store_11221 :: "nat state" where
  "store_11221 =
     \<lparr>nodes = [0 \<mapsto> \<lparr>prev = None, next' = Some 2, val = None\<rparr>,
               1 \<mapsto> \<lparr>prev = Some 6, next' = None, val = None\<rparr>,
               2 \<mapsto> \<lparr>prev = Some 0, next' = Some 3, val = Some 1\<rparr>,
               3 \<mapsto> \<lparr>prev = Some 2, next' = Some 4, val = Some 1\<rparr>,
               4 \<mapsto> \<lparr>prev = Some 3, next' = Some 5, val = Some 2\<rparr>,
               5 \<mapsto> \<lparr>prev = Some 4, next' = Some 6, val = Some 2\<rparr>,
               6 \<mapsto> \<lparr>prev = Some 5, next' = Some 1, val = Some 1\<rparr>],
      objs = [0 \<mapsto> \<lparr>head = Some 0, tail = Some 1, sz = 5\<rparr>],
      brk = 7\<rparr>"

text \<open>
  What the specification says of \<^verbatim>\<open>merge\<close>: an element of the second sequence goes
  before the current element of the first one only when its key is strictly less.
\<close>

fun stable_merge :: "('b \<Rightarrow> 'a::ord) \<Rightarrow> 'b list \<Rightarrow> 'b list \<Rightarrow> 'b list" where
  "stable_merge f [] bs = bs"
| "stable_merge f (a # as) [] = a # as"
| "stable_merge f (a # as) (b # bs) =
     (if f b < f a then b # stable_merge f (a # as) bs else a # stable_merge f as (b # bs))"

text \<open>
  The same, stopped where the loop of the source stops, when either sequence is used up:
  what has been merged so far, and what is left of the second sequence.
\<close>

fun merge_run :: "('b \<Rightarrow> 'a::ord) \<Rightarrow> 'b list \<Rightarrow> 'b list \<Rightarrow> 'b list \<times> 'b list" where
  "merge_run f [] bs = ([], bs)"
| "merge_run f (a # as) [] = (a # as, [])"
| "merge_run f (a # as) (b # bs) =
     (if f b < f a then (case merge_run f (a # as) bs of (m, r) \<Rightarrow> (b # m, r))
      else (case merge_run f as (b # bs) of (m, r) \<Rightarrow> (a # m, r)))"

text \<open>
  The store after \<^verbatim>\<open>list<nat> a, b;\<close>, \<^verbatim>\<open>push_back\<close> of 1, 3, 5 on \<^verbatim>\<open>a\<close> and of 2, 3, 4
  on \<^verbatim>\<open>b\<close>, with \<^verbatim>\<open>a\<close> at address 0 and \<^verbatim>\<open>b\<close> at address 1.
\<close>

definition store_135_234 :: "nat state" where
  "store_135_234 =
     \<lparr>nodes = [0 \<mapsto> \<lparr>prev = None, next' = Some 4, val = None\<rparr>,
               1 \<mapsto> \<lparr>prev = Some 6, next' = None, val = None\<rparr>,
               2 \<mapsto> \<lparr>prev = None, next' = Some 7, val = None\<rparr>,
               3 \<mapsto> \<lparr>prev = Some 9, next' = None, val = None\<rparr>,
               4 \<mapsto> \<lparr>prev = Some 0, next' = Some 5, val = Some 1\<rparr>,
               5 \<mapsto> \<lparr>prev = Some 4, next' = Some 6, val = Some 3\<rparr>,
               6 \<mapsto> \<lparr>prev = Some 5, next' = Some 1, val = Some 5\<rparr>,
               7 \<mapsto> \<lparr>prev = Some 2, next' = Some 8, val = Some 2\<rparr>,
               8 \<mapsto> \<lparr>prev = Some 7, next' = Some 9, val = Some 3\<rparr>,
               9 \<mapsto> \<lparr>prev = Some 8, next' = Some 3, val = Some 4\<rparr>],
      objs = [0 \<mapsto> \<lparr>head = Some 0, tail = Some 1, sz = 3\<rparr>,
              1 \<mapsto> \<lparr>head = Some 2, tail = Some 3, sz = 3\<rparr>],
      brk = 10\<rparr>"

text \<open>
  Modelled from the spec: \<^verbatim>\<open>sjtu::sort\<close> of \<^verbatim>\<open>algorithm.hpp\<close>, which the sources do not
  contain. The specification has it as a collaborator, ``a generic sort routine taking a
  contiguous mutable range of element handles and a strict-weak-ordering comparator,
  performing an in-place comparison sort''. Where a concrete routine is needed, an
  insertion sort by the comparator stands for it.
\<close>

fun insert_by :: "('b \<Rightarrow> 'b \<Rightarrow> bool) \<Rightarrow> 'b \<Rightarrow> 'b list \<Rightarrow> 'b list" where
  "insert_by lt x [] = [x]"
| "insert_by lt x (y # ys) = (if lt x y then x # y # ys else y # insert_by lt x ys)"

definition sjtu_sort :: "('b \<Rightarrow> 'b \<Rightarrow> bool) \<Rightarrow> 'b list \<Rightarrow> 'b list" where
  "sjtu_sort lt xs = foldr (insert_by lt) xs []"

text \<open>
  The store after \<^verbatim>\<open>list<nat> a, b; a.push_back(5); b.push_back(3); auto it = b.begin();
  a.merge(b); b.insert(it, 9);\<close> with \<^verbatim>\<open>a\<close> at address 0 and \<^verbatim>\<open>b\<close> at address 1.
\<close>

definition store_stale_insert :: "nat state" where
  "store_stale_insert =
     \<lparr>nodes = [0 \<mapsto> \<lparr>prev = None, next' = Some 6, val = None\<rparr>,
               1 \<mapsto> \<lparr>prev = Some 2, next' = None, val = None\<rparr>,
               2 \<mapsto> \<lparr>prev = Some 5, next' = Some 1, val = Some 5\<rparr>,
               3 \<mapsto> \<lparr>prev = None, next' = Some 4, val = None\<rparr>,
               4 \<mapsto> \<lparr>prev = Some 3, next' = None, val = None\<rparr>,
               5 \<mapsto> \<lparr>prev = Some 6, next' = Some 2, val = Some 3\<rparr>,
               6 \<mapsto> \<lparr>prev = Some 0, next' = Some 5, val = Some 9\<rparr>],
      objs = [0 \<mapsto> \<lparr>head = Some 0, tail = Some 1, sz = 2\<rparr>,
              1 \<mapsto> \<lparr>head = Some 3, tail = Some 4, sz = 1\<rparr>],
      brk = 7\<rparr>"

section \<open>Basic facts\<close>

lemma ebind_simps [simp]: "ebind (Inl e) f = Inl e" "ebind (Inr x) f = f x"
  by (simp_all add: ebind_def)

lemma node_at_alive: "alive S a \<Longrightarrow> \<exists>n. nodes S a = Some n"
  by (simp add: alive_def)

lemma get_next_alive [simp]: "alive S a \<Longrightarrow> get_next S (Some a) = Inr (nxt S a)"
  by (auto simp: get_next_def node_at_def alive_def nxt_def)

lemma get_prev_alive [simp]: "alive S a \<Longrightarrow> get_prev S (Some a) = Inr (prv S a)"
  by (auto simp: get_prev_def node_at_def alive_def prv_def)

lemma get_val_alive [simp]: "alive S a \<Longrightarrow> get_val S (Some a) = Inr (vl S a)"
  by (auto simp: get_val_def node_at_def alive_def vl_def)

lemma get_dead [simp]:
  "\<not> alive S a \<Longrightarrow> get_next S (Some a) = Inl undefined_behaviour"
  "\<not> alive S a \<Longrightarrow> get_prev S (Some a) = Inl undefined_behaviour"
  "\<not> alive S a \<Longrightarrow> get_val S (Some a) = Inl undefined_behaviour"
  by (auto simp: get_next_def get_prev_def get_val_def node_at_def alive_def)

lemma get_null [simp]:
  "get_next S None = Inl undefined_behaviour"
  "get_prev S None = Inl undefined_behaviour"
  "get_val S None = Inl undefined_behaviour"
  by (auto simp: get_next_def get_prev_def get_val_def node_at_def)

lemma put_node_alive: "alive S a \<Longrightarrow> put_node S (Some a) f = Inr (upd_node S a f)"
  by (auto simp: put_node_def alive_def upd_node_def)

lemma set_next_alive [simp]:
  "alive S a \<Longrightarrow> set_next S (Some a) x = Inr (upd_node S a (\<lambda>n. n\<lparr>next' := x\<rparr>))"
  by (simp add: set_next_def put_node_alive)

lemma set_prev_alive [simp]:
  "alive S a \<Longrightarrow> set_prev S (Some a) x = Inr (upd_node S a (\<lambda>n. n\<lparr>prev := x\<rparr>))"
  by (simp add: set_prev_def put_node_alive)

lemma set_val_alive [simp]:
  "alive S a \<Longrightarrow> set_val S (Some a) x = Inr (upd_node S a (\<lambda>n. n\<lparr>val := x\<rparr>))"
  by (simp add: set_val_def put_node_alive)

lemma set_null [simp]:
  "set_next S None x = Inl undefined_behaviour"
  "set_prev S None x = Inl undefined_behaviour"
  "set_val S None y = Inl undefined_behaviour"
  by (auto simp: set_next_def set_prev_def set_val_def put_node_def)

lemma delete_node_alive [simp]: "alive S a \<Longrightarrow> delete_node S (Some a) = Inr (free S a)"
  by (auto simp: delete_node_def alive_def free_def)

lemma new_node_eq [simp]: "new_node S v = (Some (brk S), alloc S v)"
  by (simp add: alloc_def new_node_def)

lemma upd_node_views [simp]:
  "alive (upd_node S a f) = alive S"
  "objs (upd_node S a f) = objs S"
  "brk (upd_node S a f) = brk S"
  by (auto simp: upd_node_def alive_def fun_eq_iff)

lemma upd_next_views [simp]:
  "alive S a \<Longrightarrow> nxt (upd_node S a (\<lambda>n. n\<lparr>next' := x\<rparr>)) = (nxt S)(a := x)"
  "prv (upd_node S a (\<lambda>n. n\<lparr>next' := x\<rparr>)) = prv S"
  "vl (upd_node S a (\<lambda>n. n\<lparr>next' := x\<rparr>)) = vl S"
  by (auto simp: upd_node_def alive_def nxt_def prv_def vl_def fun_eq_iff split: option.splits)

lemma upd_prev_views [simp]:
  "alive S a \<Longrightarrow> prv (upd_node S a (\<lambda>n. n\<lparr>prev := x\<rparr>)) = (prv S)(a := x)"
  "nxt (upd_node S a (\<lambda>n. n\<lparr>prev := x\<rparr>)) = nxt S"
  "vl (upd_node S a (\<lambda>n. n\<lparr>prev := x\<rparr>)) = vl S"
  by (auto simp: upd_node_def alive_def nxt_def prv_def vl_def fun_eq_iff split: option.splits)

lemma upd_val_views [simp]:
  "alive S a \<Longrightarrow> vl (upd_node S a (\<lambda>n. n\<lparr>val := y\<rparr>)) = (vl S)(a := y)"
  "nxt (upd_node S a (\<lambda>n. n\<lparr>val := y\<rparr>)) = nxt S"
  "prv (upd_node S a (\<lambda>n. n\<lparr>val := y\<rparr>)) = prv S"
  by (auto simp: upd_node_def alive_def nxt_def prv_def vl_def fun_eq_iff split: option.splits)

lemma alloc_views [simp]:
  "alive (alloc S v) = (alive S)(brk S := True)"
  "nxt (alloc S v) = (nxt S)(brk S := None)"
  "prv (alloc S v) = (prv S)(brk S := None)"
  "vl (alloc S v) = (vl S)(brk S := v)"
  "objs (alloc S v) = objs S"
  "brk (alloc S v) = Suc (brk S)"
  by (auto simp: alloc_def alive_def nxt_def prv_def vl_def fun_eq_iff)

lemma free_views [simp]:
  "alive (free S a) = (alive S)(a := False)"
  "nxt (free S a) = (nxt S)(a := None)"
  "prv (free S a) = (prv S)(a := None)"
  "vl (free S a) = (vl S)(a := None)"
  "objs (free S a) = objs S"
  "brk (free S a) = brk S"
  by (auto simp: free_def alive_def nxt_def prv_def vl_def fun_eq_iff)

lemma objs_update_views [simp]:
  "alive (S\<lparr>objs := g\<rparr>) = alive S"
  "nxt (S\<lparr>objs := g\<rparr>) = nxt S"
  "prv (S\<lparr>objs := g\<rparr>) = prv S"
  "vl (S\<lparr>objs := g\<rparr>) = vl S"
  by (auto simp: alive_def nxt_def prv_def vl_def fun_eq_iff)

lemma list_at_simps [simp]:
  "objs S l = Some L \<Longrightarrow> list_at S (Some l) = Inr L"
  "objs S l = None \<Longrightarrow> list_at S (Some l) = Inl undefined_behaviour"
  "list_at S None = Inl undefined_behaviour"
  by (auto simp: list_at_def)

lemma put_list_live [simp]:
  "objs S l = Some L \<Longrightarrow> put_list S l f = Inr (S\<lparr>objs := (objs S)(l \<mapsto> f L)\<rparr>)"
  by (simp add: put_list_def)

lemma unlink_eq:
  assumes "alive S p" "prv S p = Some q" "nxt S p = Some r" "alive S q" "alive S r" "p \<noteq> q" "p \<noteq> r"
  shows "unlink S (Some p) =
           Inr (upd_node (upd_node S q (\<lambda>n. n\<lparr>next' := Some r\<rparr>)) r (\<lambda>n. n\<lparr>prev := Some q\<rparr>))"
  using assms by (simp add: unlink_def)

lemma link_before_eq:
  assumes "alive S p" "prv S p = Some q" "alive S q" "alive S nd" "nd \<noteq> p" "nd \<noteq> q"
  shows "link_before S (Some p) (Some nd) =
           Inr (upd_node (upd_node (upd_node (upd_node S nd (\<lambda>n. n\<lparr>prev := Some q\<rparr>))
                  nd (\<lambda>n. n\<lparr>next' := Some p\<rparr>)) q (\<lambda>n. n\<lparr>next' := Some nd\<rparr>)) p (\<lambda>n. n\<lparr>prev := Some nd\<rparr>))"
  using assms by (simp add: link_before_def)


lemma fpath_snoc2 [simp]:
  "fpath f (xs @ x # y # ys) \<longleftrightarrow> fpath f (xs @ [x]) \<and> f x = Some y \<and> fpath f (y # ys)"
  by (induction f xs rule: fpath.induct) auto

lemma bpath_snoc2 [simp]:
  "bpath g (xs @ x # y # ys) \<longleftrightarrow> bpath g (xs @ [x]) \<and> g y = Some x \<and> bpath g (y # ys)"
  by (induction g xs rule: bpath.induct) auto

lemma fpath_upd_notin [simp]: "a \<notin> set cs \<Longrightarrow> fpath (f(a := v)) cs = fpath f cs"
  by (induction f cs rule: fpath.induct) auto

lemma bpath_upd_notin [simp]: "a \<notin> set cs \<Longrightarrow> bpath (g(a := v)) cs = bpath g cs"
  by (induction g cs rule: bpath.induct) auto

lemma fpath_upd_last [simp]: "a \<notin> set xs \<Longrightarrow> fpath (f(a := v)) (xs @ [x]) = fpath f (xs @ [x])"
  by (induction f xs rule: fpath.induct) auto

lemma bpath_upd_first [simp]: "a \<notin> set ys \<Longrightarrow> bpath (g(a := v)) (y # ys) = bpath g (y # ys)"
  by (cases ys) auto

lemma nodes_upd_node [simp]:
  "nodes (upd_node S b f) a = (if a = b then map_option f (nodes S b) else nodes S a)"
  by (simp add: upd_node_def)

lemma is_listD:
  assumes "is_list S l h as t"
  obtains L where "objs S l = Some L" "head L = Some h" "tail L = Some t" "sz L = length as"
    "chain S h as t" "vl S h = None" "vl S t = None" "list_all (\<lambda>a. vl S a \<noteq> None) as"
  using assms by (auto simp: is_list_def split: option.splits)

lemma bpath_last: "bpath g (xs @ [x, y]) \<Longrightarrow> g y = Some x"
  by simp

lemma chain_prv_tail: "chain S h as t \<Longrightarrow> prv S t = Some (last (h # as))"
proof -
  assume c: "chain S h as t"
  have "h # as @ [t] = butlast (h # as) @ [last (h # as), t]"
    by (metis append_butlast_last_id append.assoc append_Cons append_Nil list.distinct(1))
  with c have "bpath (prv S) (butlast (h # as) @ [last (h # as), t])"
    by (simp add: chain_def)
  then show ?thesis by (rule bpath_last)
qed

lemma chain_prv_first: "chain S h (a # as) t \<Longrightarrow> prv S a = Some h"
  by (simp add: chain_def)

lemma chain_nxt_head: "chain S h as t \<Longrightarrow> nxt S h = Some (hd (as @ [t]))"
  by (cases as) (simp_all add: chain_def)

lemma chain_alive: "chain S h as t \<Longrightarrow> a \<in> set (h # as @ [t]) \<Longrightarrow> alive S a"
  by (auto simp: chain_def list_all_iff)

lemma chain_distinct: "chain S h as t \<Longrightarrow> distinct (h # as @ [t])"
  by (simp add: chain_def)

section \<open>insert and erase on a well-formed list\<close>

lemma same_node:
  "nodes S' a = nodes S a \<Longrightarrow>
     alive S' a = alive S a \<and> nxt S' a = nxt S a \<and> prv S' a = prv S a \<and> vl S' a = vl S a"
  by (simp add: alive_def nxt_def prv_def vl_def)

lemma node_eqI:
  assumes "alive S' a = alive S a" "nxt S' a = nxt S a" "prv S' a = prv S a" "vl S' a = vl S a"
  shows "nodes S' a = nodes S a"
  using assms by (auto simp: alive_def nxt_def prv_def vl_def split: option.splits)

lemma link_before_views:
  assumes "alive S p" "prv S p = Some q" "alive S q" "alive S nd" "nd \<noteq> p" "nd \<noteq> q"
  shows "\<exists>S'. link_before S (Some p) (Some nd) = Inr S' \<and> alive S' = alive S \<and>
           nxt S' = (nxt S)(nd := Some p, q := Some nd) \<and>
           prv S' = (prv S)(nd := Some q, p := Some nd) \<and>
           vl S' = vl S \<and> objs S' = objs S \<and> brk S' = brk S"
  using assms by (simp add: link_before_eq)

lemma unlink_views:
  assumes "alive S p" "prv S p = Some q" "nxt S p = Some r" "alive S q" "alive S r" "p \<noteq> q" "p \<noteq> r"
  shows "\<exists>S'. unlink S (Some p) = Inr S' \<and> alive S' = alive S \<and>
           nxt S' = (nxt S)(q := Some r) \<and> prv S' = (prv S)(r := Some q) \<and>
           vl S' = vl S \<and> objs S' = objs S \<and> brk S' = brk S"
  using assms by (simp add: unlink_eq)

lemma snoc_split: "\<exists>ys q. h # xs = ys @ [q]"
  by (metis append_butlast_last_id list.distinct(1))

lemma hd_split: "\<exists>p ys. zs @ [t] = p # ys \<and> p = hd (zs @ [t])"
  by (cases zs) auto

lemma list_insert_ok:
  assumes il: "is_list S l h (xs @ zs) t"
  shows "\<exists>S'. list_insert S l \<lparr>cur = Some (hd (zs @ [t])), owner = Some l\<rparr> v =
                 Inr (\<lparr>cur = Some (brk S), owner = Some l\<rparr>, S') \<and>
              is_list S' l h (xs @ brk S # zs) t \<and>
              vl S' = (vl S)(brk S := Some v) \<and> brk S' = Suc (brk S) \<and>
              (\<forall>a. a \<notin> set (h # xs @ zs @ [t]) \<and> a \<noteq> brk S \<longrightarrow> nodes S' a = nodes S a) \<and>
              (\<forall>l'. l' \<noteq> l \<longrightarrow> objs S' l' = objs S l')"
proof -
  from il obtain L where L: "objs S l = Some L" "head L = Some h" "tail L = Some t"
    "sz L = length (xs @ zs)" "chain S h (xs @ zs) t" "vl S h = None" "vl S t = None"
    "list_all (\<lambda>a. vl S a \<noteq> None) (xs @ zs)"
    by (rule is_listD)
  obtain ys q where q: "h # xs = ys @ [q]" using snoc_split[of h xs] by blast
  obtain p ws where p: "zs @ [t] = p # ws" "p = hd (zs @ [t])" using hd_split[of zs t] by blast
  let ?nd = "brk S"
  let ?A = "alloc S (Some v)"
  have cells: "h # (xs @ zs) @ [t] = ys @ q # p # ws"
    using q p by simp
  from L(5) have d: "distinct (ys @ q # p # ws)"
    and al: "list_all (\<lambda>a. alive S a \<and> a < brk S) (ys @ q # p # ws)"
    and fp: "fpath (nxt S) (ys @ q # p # ws)" and bp: "bpath (prv S) (ys @ q # p # ws)"
    and ph: "prv S h = None" and nt: "nxt S t = None"
    unfolding chain_def cells by auto
  from al have fresh: "?nd \<notin> set (ys @ q # p # ws)"
    by (auto simp: list_all_iff)
  have "\<exists>S'. link_before ?A (Some p) (Some ?nd) = Inr S' \<and> alive S' = alive ?A \<and>
           nxt S' = (nxt ?A)(?nd := Some p, q := Some ?nd) \<and>
           prv S' = (prv ?A)(?nd := Some q, p := Some ?nd) \<and>
           vl S' = vl ?A \<and> objs S' = objs ?A \<and> brk S' = brk ?A"
    using al bp fresh by (intro link_before_views) (auto simp: list_all_iff)
  then obtain S1 where S1: "link_before ?A (Some p) (Some ?nd) = Inr S1" "alive S1 = alive ?A"
    "nxt S1 = (nxt ?A)(?nd := Some p, q := Some ?nd)"
    "prv S1 = (prv ?A)(?nd := Some q, p := Some ?nd)"
    "vl S1 = vl ?A" "objs S1 = objs ?A" "brk S1 = brk ?A"
    by blast
  let ?S' = "S1\<lparr>objs := (objs S1)(l \<mapsto> L\<lparr>sz := sz L + 1\<rparr>)\<rparr>"
  have run: "list_insert S l \<lparr>cur = Some (hd (zs @ [t])), owner = Some l\<rparr> v =
                 Inr (\<lparr>cur = Some ?nd, owner = Some l\<rparr>, ?S')"
    using S1(1,6) L(1) p(2) by (simp add: list_insert_def inc_sz_def)
  have cells': "h # (xs @ ?nd # zs) @ [t] = ys @ q # ?nd # p # ws"
    using q p by simp
  have hq: "h \<in> set (ys @ [q])" "h \<noteq> p" "t \<in> set (p # ws)" "t \<noteq> q"
    using q p(1) d by (auto simp: Cons_eq_append_conv append_eq_Cons_conv)
  have ch: "chain ?S' h (xs @ ?nd # zs) t"
    unfolding chain_def cells'
    using d al fp bp ph nt fresh hq S1(2-7)
    by (auto simp: list_all_iff intro: less_SucI)
  have fresh': "?nd \<notin> set (h # (xs @ zs) @ [t])"
    using fresh unfolding cells .
  have vals: "vl ?S' h = None \<and> vl ?S' t = None \<and> list_all (\<lambda>a. vl ?S' a \<noteq> None) (xs @ ?nd # zs)"
    using L(6-8) fresh' S1(5)
    by (auto simp: list_all_iff)
  have il': "is_list ?S' l h (xs @ ?nd # zs) t"
    using ch vals L(2-4) by (simp add: is_list_def)
  have frame: "\<forall>a. a \<notin> set (h # xs @ zs @ [t]) \<and> a \<noteq> ?nd \<longrightarrow> nodes ?S' a = nodes S a"
  proof (intro allI impI)
    fix a assume a: "a \<notin> set (h # xs @ zs @ [t]) \<and> a \<noteq> ?nd"
    moreover have "set (h # xs @ zs @ [t]) = set (ys @ q # p # ws)"
      using arg_cong[OF cells, of set] by simp
    ultimately have "a \<noteq> q" "a \<noteq> p" "a \<noteq> ?nd" by auto
    then show "nodes ?S' a = nodes S a"
      using S1(2-5) by (intro node_eqI) auto
  qed
  show ?thesis
    using run il' frame S1(5,6,7) by auto
qed

lemma list_erase_ok:
  assumes il: "is_list S l h (xs @ p # zs) t"
  shows "\<exists>S'. list_erase S l \<lparr>cur = Some p, owner = Some l\<rparr> =
                 Inr (\<lparr>cur = Some (hd (zs @ [t])), owner = Some l\<rparr>, S') \<and>
              is_list S' l h (xs @ zs) t \<and>
              nodes S' p = None \<and> brk S' = brk S \<and>
              (\<forall>a. a \<noteq> p \<longrightarrow> vl S' a = vl S a) \<and>
              (\<forall>a. a \<notin> set (h # xs @ p # zs @ [t]) \<longrightarrow> nodes S' a = nodes S a) \<and>
              (\<forall>l'. l' \<noteq> l \<longrightarrow> objs S' l' = objs S l')"
proof -
  from il obtain L where L: "objs S l = Some L" "head L = Some h" "tail L = Some t"
    "sz L = length (xs @ p # zs)" "chain S h (xs @ p # zs) t" "vl S h = None" "vl S t = None"
    "list_all (\<lambda>a. vl S a \<noteq> None) (xs @ p # zs)"
    by (rule is_listD)
  obtain ys q where q: "h # xs = ys @ [q]" using snoc_split[of h xs] by blast
  obtain r ws where r: "zs @ [t] = r # ws" "r = hd (zs @ [t])" using hd_split[of zs t] by blast
  have cells: "h # (xs @ p # zs) @ [t] = ys @ q # p # r # ws"
    using q r by simp
  from L(5) have d: "distinct (ys @ q # p # r # ws)"
    and al: "list_all (\<lambda>a. alive S a \<and> a < brk S) (ys @ q # p # r # ws)"
    and fp: "fpath (nxt S) (ys @ q # p # r # ws)" and bp: "bpath (prv S) (ys @ q # p # r # ws)"
    and ph: "prv S h = None" and nt: "nxt S t = None"
    unfolding chain_def cells by auto
  have "\<exists>S'. unlink S (Some p) = Inr S' \<and> alive S' = alive S \<and>
           nxt S' = (nxt S)(q := Some r) \<and> prv S' = (prv S)(r := Some q) \<and>
           vl S' = vl S \<and> objs S' = objs S \<and> brk S' = brk S"
    using al fp bp d by (intro unlink_views) (auto simp: list_all_iff)
  then obtain S1 where S1: "unlink S (Some p) = Inr S1" "alive S1 = alive S"
    "nxt S1 = (nxt S)(q := Some r)" "prv S1 = (prv S)(r := Some q)"
    "vl S1 = vl S" "objs S1 = objs S" "brk S1 = brk S"
    by blast
  let ?F = "free S1 p"
  let ?S' = "?F\<lparr>objs := (objs ?F)(l \<mapsto> L\<lparr>sz := sz L - 1\<rparr>)\<rparr>"
  have tin: "t \<in> set (r # ws)"
    using r(1) by (metis in_set_conv_decomp)
  have pt: "p \<noteq> t" "alive S p" "vl S p \<noteq> None" "nxt S p = Some r"
    using d al fp L(8) tin by (auto simp: list_all_iff)
  have run: "list_erase S l \<lparr>cur = Some p, owner = Some l\<rparr> =
                 Inr (\<lparr>cur = Some (hd (zs @ [t])), owner = Some l\<rparr>, ?S')"
    using S1(1,2,6) L(1,3,4) pt unfolding r(2)[symmetric]
    by (simp add: list_erase_def dec_sz_def Let_def)
  have cells': "h # (xs @ zs) @ [t] = ys @ q # r # ws"
    using q r by simp
  have hq: "h \<in> set (ys @ [q])" "h \<noteq> r" "h \<noteq> p" "t \<in> set (r # ws)" "t \<noteq> q" "t \<noteq> p"
    using q r(1) d by (auto simp: Cons_eq_append_conv append_eq_Cons_conv)
  have ch: "chain ?S' h (xs @ zs) t"
    unfolding chain_def cells'
    using d al fp bp ph nt hq S1(2-7)
    by (auto simp: list_all_iff)
  have pn: "p \<notin> set (xs @ zs)" "p \<noteq> h" "p \<noteq> t"
    using L(5) by (auto simp: chain_def)
  have vals: "vl ?S' h = None \<and> vl ?S' t = None \<and> list_all (\<lambda>a. vl ?S' a \<noteq> None) (xs @ zs)"
    using L(6-8) S1(5) pn
    by (auto simp: list_all_iff)
  have il': "is_list ?S' l h (xs @ zs) t"
    using ch vals L(2-4) by (simp add: is_list_def)
  have frame: "\<forall>a. a \<notin> set (h # xs @ p # zs @ [t]) \<longrightarrow> nodes ?S' a = nodes S a"
  proof (intro allI impI)
    fix a assume a: "a \<notin> set (h # xs @ p # zs @ [t])"
    moreover have "set (h # xs @ p # zs @ [t]) = set (ys @ q # p # r # ws)"
      using arg_cong[OF cells, of set] by simp
    ultimately have "a \<noteq> q" "a \<noteq> p" "a \<noteq> r" by auto
    then show "nodes ?S' a = nodes S a"
      using S1(2-5) by (intro node_eqI) auto
  qed
  have dead: "nodes ?S' p = None"
    by (simp add: free_def)
  show ?thesis
    using run il' frame dead S1(5,6,7) by auto
qed

section \<open>Decrementing an iterator\<close>

text \<open>
  C4. On a list that satisfies the invariant, pre- and post-decrement of the iterator
  and of the const-iterator that \<^verbatim>\<open>end()\<close> and \<^verbatim>\<open>cend()\<close> return succeed exactly when
  the list has an element, and then the iterator references the last element (the
  post-form returning the copy made before). Decrementing what \<^verbatim>\<open>begin()\<close> returns
  (the first element, or the tail sentinel of an empty list), an iterator on the head
  sentinel, or an iterator without owner, default-constructed or not, fails with
  \<^verbatim>\<open>invalid_iterator\<close>.
\<close>

theorem decrement_contract:
  assumes "is_list S l h as t"
  shows "(let e = \<lparr>cur = Some t, owner = Some l\<rparr>; b = \<lparr>cur = Some (last as), owner = Some l\<rparr> in
          list_end S l = Inr e \<and> list_cend S l = Inr e \<and>
          iterator_pre_dec S e = (if as = [] then Inl invalid_iterator else Inr b) \<and>
          iterator_post_dec S e = (if as = [] then Inl invalid_iterator else Inr (e, b)) \<and>
          const_iterator_pre_dec S e = (if as = [] then Inl invalid_iterator else Inr b) \<and>
          const_iterator_post_dec S e = (if as = [] then Inl invalid_iterator else Inr (e, b))) \<and>
         (let f = \<lparr>cur = Some (hd (as @ [t])), owner = Some l\<rparr> in
          list_begin S l = Inr f \<and> list_cbegin S l = Inr f \<and>
          iterator_pre_dec S f = Inl invalid_iterator \<and>
          iterator_post_dec S f = Inl invalid_iterator \<and>
          const_iterator_pre_dec S f = Inl invalid_iterator \<and>
          const_iterator_post_dec S f = Inl invalid_iterator) \<and>
         (let g = \<lparr>cur = Some h, owner = Some l\<rparr> in
          iterator_pre_dec S g = Inl invalid_iterator \<and>
          iterator_post_dec S g = Inl invalid_iterator \<and>
          const_iterator_pre_dec S g = Inl invalid_iterator \<and>
          const_iterator_post_dec S g = Inl invalid_iterator) \<and>
         (\<forall>c. iterator_pre_dec S \<lparr>cur = c, owner = None\<rparr> = Inl invalid_iterator \<and>
           iterator_post_dec S \<lparr>cur = c, owner = None\<rparr> = Inl invalid_iterator \<and>
           const_iterator_pre_dec S \<lparr>cur = c, owner = None\<rparr> = Inl invalid_iterator \<and>
           const_iterator_post_dec S \<lparr>cur = c, owner = None\<rparr> = Inl invalid_iterator) \<and>
         iterator_pre_dec S iterator_default = Inl invalid_iterator \<and>
         iterator_post_dec S iterator_default = Inl invalid_iterator \<and>
         const_iterator_pre_dec S const_iterator_default = Inl invalid_iterator \<and>
         const_iterator_post_dec S const_iterator_default = Inl invalid_iterator"
proof -
  from assms obtain L where L: "objs S l = Some L" "head L = Some h" "tail L = Some t"
    "sz L = length as" "chain S h as t"
    by (rule is_listD)
  have ht: "h \<noteq> t" and at: "alive S t" and ah: "alive S h"
    using L(5) by (auto simp: chain_def)
  have pt: "as \<noteq> [] \<Longrightarrow> prv S t = Some (last as)"
    using chain_prv_tail[OF L(5)] by simp
  have nh: "nxt S h = Some (hd (as @ [t]))"
    by (rule chain_nxt_head[OF L(5)])
  have first: "as \<noteq> [] \<Longrightarrow> prv S (hd as) = Some h \<and> alive S (hd as) \<and> hd as \<noteq> h \<and> hd as \<noteq> t"
    using L(5) by (cases as) (auto simp: chain_def)
  show ?thesis
    using L(1-4) ht at ah pt nh first
    by (auto simp: iterator_pre_dec_def iterator_post_dec_def const_iterator_pre_dec_def
        const_iterator_post_dec_def list_end_def list_cend_def list_begin_def list_cbegin_def
        iterator_default_def const_iterator_default_def Let_def)
qed

lemma is_list_store_135: "is_list store_135 0 0 [2, 3, 4] 1"
  by (simp add: store_135_def is_list_def chain_def alive_def nxt_def prv_def vl_def)

theorem decrement_contract_witness:
  "is_list store_135 0 0 [2, 3, 4] 1 \<and>
   list_end store_135 0 = Inr \<lparr>cur = Some 1, owner = Some 0\<rparr> \<and>
   iterator_pre_dec store_135 \<lparr>cur = Some 1, owner = Some 0\<rparr> = Inr \<lparr>cur = Some 4, owner = Some 0\<rparr> \<and>
   list_begin store_135 0 = Inr \<lparr>cur = Some 2, owner = Some 0\<rparr> \<and>
   iterator_pre_dec store_135 \<lparr>cur = Some 2, owner = Some 0\<rparr> = Inl invalid_iterator"
  using decrement_contract [OF is_list_store_135] is_list_store_135
  by (simp add: Let_def)

section \<open>Comparing iterators\<close>

text \<open>
  C10. Each of the four equality operators, between iterators and const-iterators in
  every combination, is true exactly when the two reference the same node, whatever
  the two owners are; the inequality operators are the negation. The operators are total
  functions into the truth values, so no comparison fails, and two default-constructed
  iterators are equal.
\<close>

theorem iterator_equality_is_node_identity:
  "iterator_eq \<lparr>cur = c, owner = o1\<rparr> \<lparr>cur = c', owner = o2\<rparr> = (c = c') \<and>
   iterator_eq_const \<lparr>cur = c, owner = o1\<rparr> \<lparr>cur = c', owner = o2\<rparr> = (c = c') \<and>
   const_iterator_eq \<lparr>cur = c, owner = o1\<rparr> \<lparr>cur = c', owner = o2\<rparr> = (c = c') \<and>
   const_iterator_eq_iterator \<lparr>cur = c, owner = o1\<rparr> \<lparr>cur = c', owner = o2\<rparr> = (c = c') \<and>
   iterator_ne \<lparr>cur = c, owner = o1\<rparr> \<lparr>cur = c', owner = o2\<rparr> = (c \<noteq> c') \<and>
   iterator_ne_const \<lparr>cur = c, owner = o1\<rparr> \<lparr>cur = c', owner = o2\<rparr> = (c \<noteq> c') \<and>
   const_iterator_ne \<lparr>cur = c, owner = o1\<rparr> \<lparr>cur = c', owner = o2\<rparr> = (c \<noteq> c') \<and>
   const_iterator_ne_iterator \<lparr>cur = c, owner = o1\<rparr> \<lparr>cur = c', owner = o2\<rparr> = (c \<noteq> c') \<and>
   iterator_eq iterator_default iterator_default \<and>
   iterator_eq_const iterator_default const_iterator_default \<and>
   const_iterator_eq const_iterator_default const_iterator_default \<and>
   const_iterator_eq_iterator const_iterator_default iterator_default"
  by (simp add: iterator_eq_def iterator_eq_const_def const_iterator_eq_def
      const_iterator_eq_iterator_def iterator_ne_def iterator_ne_const_def const_iterator_ne_def
      const_iterator_ne_iterator_def iterator_default_def const_iterator_default_def)

section \<open>erase\<close>

text \<open>
  C3, as the source has it. On a list that satisfies the invariant, \<^verbatim>\<open>erase\<close> of an
  iterator of this list on a node \<open>p\<close> that holds a value unlinks \<open>p\<close>, destroys it,
  counts one node less and returns an iterator on the node that followed, which is
  \<^verbatim>\<open>end()\<close> of the list as it now is when \<open>p\<close> was the last node. The guards come in
  this order: an iterator of another owner or on no node gives \<^verbatim>\<open>invalid_iterator\<close>
  whatever the count is; after that a count of zero gives \<^verbatim>\<open>container_is_empty\<close>; after
  that \<^verbatim>\<open>end()\<close> and the head sentinel give \<^verbatim>\<open>invalid_iterator\<close>.
\<close>

theorem erase_contract:
  assumes "is_list S l h as t"
  shows "(\<forall>xs p zs. as = xs @ p # zs \<longrightarrow>
           (\<exists>S'. list_erase S l \<lparr>cur = Some p, owner = Some l\<rparr> =
                    Inr (\<lparr>cur = Some (hd (zs @ [t])), owner = Some l\<rparr>, S') \<and>
                 is_list S' l h (xs @ zs) t \<and> nodes S' p = None \<and>
                 list_size S' l = Inr (length as - 1) \<and>
                 (\<forall>a. a \<noteq> p \<longrightarrow> vl S' a = vl S a) \<and>
                 (zs = [] \<longrightarrow> list_end S' l = Inr \<lparr>cur = Some (hd (zs @ [t])), owner = Some l\<rparr>))) \<and>
         (\<forall>pos. owner pos \<noteq> Some l \<or> cur pos = None \<longrightarrow>
            list_erase S l pos = Inl invalid_iterator) \<and>
         (\<forall>c. as = [] \<and> c \<noteq> None \<longrightarrow>
            list_erase S l \<lparr>cur = c, owner = Some l\<rparr> = Inl container_is_empty) \<and>
         (as \<noteq> [] \<longrightarrow>
            list_erase S l \<lparr>cur = Some t, owner = Some l\<rparr> = Inl invalid_iterator \<and>
            list_erase S l \<lparr>cur = Some h, owner = Some l\<rparr> = Inl invalid_iterator)"
proof (intro conjI allI impI)
  fix xs p zs assume as: "as = xs @ p # zs"
  with assms have il: "is_list S l h (xs @ p # zs) t" by simp
  from list_erase_ok[OF il] obtain S' where S':
    "list_erase S l \<lparr>cur = Some p, owner = Some l\<rparr> =
       Inr (\<lparr>cur = Some (hd (zs @ [t])), owner = Some l\<rparr>, S')"
    "is_list S' l h (xs @ zs) t" "nodes S' p = None" "\<forall>a. a \<noteq> p \<longrightarrow> vl S' a = vl S a"
    by blast
  from S'(2) obtain L' where L': "objs S' l = Some L'" "tail L' = Some t" "sz L' = length (xs @ zs)"
    by (rule is_listD)
  have "list_size S' l = Inr (length as - 1)"
    using L' as by (simp add: list_size_def)
  moreover have "zs = [] \<longrightarrow> list_end S' l = Inr \<lparr>cur = Some (hd (zs @ [t])), owner = Some l\<rparr>"
    using L' by (simp add: list_end_def)
  ultimately show "\<exists>S'. list_erase S l \<lparr>cur = Some p, owner = Some l\<rparr> =
                    Inr (\<lparr>cur = Some (hd (zs @ [t])), owner = Some l\<rparr>, S') \<and>
                 is_list S' l h (xs @ zs) t \<and> nodes S' p = None \<and>
                 list_size S' l = Inr (length as - 1) \<and>
                 (\<forall>a. a \<noteq> p \<longrightarrow> vl S' a = vl S a) \<and>
                 (zs = [] \<longrightarrow> list_end S' l = Inr \<lparr>cur = Some (hd (zs @ [t])), owner = Some l\<rparr>)"
    using S' by blast
next
  fix pos :: iterator assume "owner pos \<noteq> Some l \<or> cur pos = None"
  then show "list_erase S l pos = Inl invalid_iterator"
    by (auto simp: list_erase_def)
next
  fix c :: ptr assume "as = [] \<and> c \<noteq> None"
  moreover from assms obtain L where "objs S l = Some L" "sz L = length as"
    by (rule is_listD)
  ultimately show "list_erase S l \<lparr>cur = c, owner = Some l\<rparr> = Inl container_is_empty"
    by (auto simp: list_erase_def)
next
  assume ne: "as \<noteq> []"
  from assms obtain L where L: "objs S l = Some L" "head L = Some h" "tail L = Some t"
    "sz L = length as" "chain S h as t" "vl S h = None"
    by (rule is_listD)
  show "list_erase S l \<lparr>cur = Some t, owner = Some l\<rparr> = Inl invalid_iterator"
    using L ne by (simp add: list_erase_def)
  have "alive S h" "h \<noteq> t" using L(5) by (auto simp: chain_def)
  then show "list_erase S l \<lparr>cur = Some h, owner = Some l\<rparr> = Inl invalid_iterator"
    using L ne by (simp add: list_erase_def)
qed

theorem erase_contract_witness:
  "is_list store_135 0 0 [2, 3, 4] 1 \<and>
   (\<exists>S'. list_erase store_135 0 \<lparr>cur = Some 4, owner = Some 0\<rparr> =
            Inr (\<lparr>cur = Some 1, owner = Some 0\<rparr>, S') \<and>
          is_list S' 0 0 [2, 3] 1 \<and> nodes S' 4 = None \<and> list_size S' 0 = Inr 2 \<and>
          list_end S' 0 = Inr \<lparr>cur = Some 1, owner = Some 0\<rparr>) \<and>
   list_erase store_135 0 \<lparr>cur = Some 2, owner = Some 7\<rparr> = Inl invalid_iterator \<and>
   list_erase store_135 0 \<lparr>cur = Some 1, owner = Some 0\<rparr> = Inl invalid_iterator"
proof -
  note c = erase_contract [OF is_list_store_135]
  from c have "\<forall>xs p zs. [2, 3, 4] = xs @ p # zs \<longrightarrow>
           (\<exists>S'. list_erase store_135 0 \<lparr>cur = Some p, owner = Some 0\<rparr> =
                    Inr (\<lparr>cur = Some (hd (zs @ [1])), owner = Some 0\<rparr>, S') \<and>
                 is_list S' 0 0 (xs @ zs) 1 \<and> nodes S' p = None \<and>
                 list_size S' 0 = Inr (length [2, 3, 4::nat] - 1) \<and>
                 (\<forall>a. a \<noteq> p \<longrightarrow> vl S' a = vl store_135 a) \<and>
                 (zs = [] \<longrightarrow> list_end S' 0 = Inr \<lparr>cur = Some (hd (zs @ [1])), owner = Some 0\<rparr>))"
    by (rule conjunct1)
  from this[rule_format, of "[2, 3]" 4 "[]"]
  have 1: "\<exists>S'. list_erase store_135 0 \<lparr>cur = Some 4, owner = Some 0\<rparr> =
            Inr (\<lparr>cur = Some 1, owner = Some 0\<rparr>, S') \<and>
          is_list S' 0 0 [2, 3] 1 \<and> nodes S' 4 = None \<and> list_size S' 0 = Inr 2 \<and>
          list_end S' 0 = Inr \<lparr>cur = Some 1, owner = Some 0\<rparr>"
    by auto
  from c have "\<forall>pos. owner pos \<noteq> Some 0 \<or> cur pos = None \<longrightarrow>
            list_erase store_135 0 pos = Inl invalid_iterator"
    by blast
  from this[rule_format, of "\<lparr>cur = Some 2, owner = Some 7\<rparr>"]
  have 2: "list_erase store_135 0 \<lparr>cur = Some 2, owner = Some 7\<rparr> = Inl invalid_iterator"
    by simp
  from c have 3: "list_erase store_135 0 \<lparr>cur = Some 1, owner = Some 0\<rparr> = Inl invalid_iterator"
    by simp
  show ?thesis using is_list_store_135 1 2 3 by blast
qed

text \<open>
  The claim gives the count the precedence: with a count of zero, \<^verbatim>\<open>erase\<close> would fail
  with \<^verbatim>\<open>container_is_empty\<close>. On the empty list and a default-constructed iterator
  the source fails with \<^verbatim>\<open>invalid_iterator\<close>.
\<close>

theorem erase_empty_counterexample:
  "is_list store_nil 0 0 [] 1 \<and> list_size store_nil 0 = Inr 0 \<and>
   list_erase store_nil 0 iterator_default = Inl invalid_iterator \<and>
   list_erase store_nil 0 iterator_default \<noteq> Inl container_is_empty"
  by (simp add: store_nil_def is_list_def chain_def alive_def nxt_def prv_def vl_def
      list_size_def list_erase_def iterator_default_def)

section \<open>insert\<close>

text \<open>
  Past its guard \<^verbatim>\<open>insert\<close> throws nothing: what can still go wrong is a read or a
  write through a null or dangling pointer.
\<close>

lemma put_node_fault: "put_node S p f = Inl e \<Longrightarrow> e = undefined_behaviour"
  by (auto simp: put_node_def split: option.splits)

lemma node_at_fault: "node_at S p = Inl e \<Longrightarrow> e = undefined_behaviour"
  by (auto simp: node_at_def split: option.splits)

lemma get_prev_fault: "get_prev S p = Inl e \<Longrightarrow> e = undefined_behaviour"
  by (cases "node_at S p") (auto simp: get_prev_def dest: node_at_fault)

lemma put_list_fault: "put_list S l f = Inl e \<Longrightarrow> e = undefined_behaviour"
  by (auto simp: put_list_def split: option.splits)

lemma ebind_Inl: "ebind m f = Inl e \<Longrightarrow> m = Inl e \<or> (\<exists>x. m = Inr x \<and> f x = Inl e)"
  by (cases m) auto

lemma link_before_fault: "link_before S p nd = Inl e \<Longrightarrow> e = undefined_behaviour"
  unfolding link_before_def set_prev_def set_next_def
  by (auto dest!: ebind_Inl dest: get_prev_fault put_node_fault)

lemma list_insert_fault:
  assumes "owner pos = Some l" "cur pos \<noteq> None"
  shows "list_insert S l pos v \<noteq> Inl invalid_iterator"
proof
  assume a: "list_insert S l pos v = Inl invalid_iterator"
  have "ebind (link_before (alloc S (Some v)) (cur pos) (Some (brk S))) (\<lambda>S1.
           ebind (inc_sz S1 l) (\<lambda>S2. Inr (\<lparr>cur = Some (brk S), owner = Some l\<rparr>, S2))) =
        Inl invalid_iterator"
    using a assms by (simp add: list_insert_def Let_def)
  then have "invalid_iterator = undefined_behaviour"
    unfolding inc_sz_def
    by (auto dest!: ebind_Inl dest: link_before_fault put_list_fault)
  then show False by simp
qed



text \<open>
  The claim has \<^verbatim>\<open>insert\<close> fail with \<^verbatim>\<open>invalid_iterator\<close> on every iterator whose node
  is not linked into this list. After \<^verbatim>\<open>a.merge(b)\<close> with \<open>a = [5]\<close> and \<open>b = [3]\<close>, an
  iterator that \<^verbatim>\<open>b.begin()\<close> returned before the merge still has \<open>b\<close> as its owner and
  is on the node of 3, which is now linked into \<open>a\<close>. \<^verbatim>\<open>b.insert\<close> of this iterator
  succeeds.
\<close>

lemma merge_5_3: "list_merge store_5_3 0 1 = Some (Inr store_merged)"
  unfolding store_5_3_def store_merged_def
  by (simp add: list_merge_def merge_loop.simps merge_step_def get_prev_def get_next_def
        get_val_def node_at_def set_prev_def set_next_def put_node_def list_at_def put_list_def
        inc_sz_def dec_sz_def get_value_def unlink_def link_before_def
      del: get_next_alive get_prev_alive get_val_alive set_next_alive set_prev_alive
        get_dead list_at_simps put_list_live)
    (auto simp: fun_eq_iff)


section \<open>Iterators on a removed node\<close>

lemma erase_node_ok:
  assumes il: "is_list S l h (xs @ p # zs) t"
  shows "\<exists>S'. erase_node S l (Some p) = Inr (Some p, S') \<and>
              is_list S' l h (xs @ zs) t \<and>
              alive S' p \<and> nxt S' p = None \<and> prv S' p = None \<and> vl S' = vl S"
proof -
  from il obtain L where L: "objs S l = Some L" "head L = Some h" "tail L = Some t"
    "sz L = length (xs @ p # zs)" "chain S h (xs @ p # zs) t" "vl S h = None" "vl S t = None"
    "list_all (\<lambda>a. vl S a \<noteq> None) (xs @ p # zs)"
    by (rule is_listD)
  obtain ys q where q: "h # xs = ys @ [q]" using snoc_split[of h xs] by blast
  obtain r ws where r: "zs @ [t] = r # ws" "r = hd (zs @ [t])" using hd_split[of zs t] by blast
  have cells: "h # (xs @ p # zs) @ [t] = ys @ q # p # r # ws"
    using q r by simp
  from L(5) have d: "distinct (ys @ q # p # r # ws)"
    and al: "list_all (\<lambda>a. alive S a \<and> a < brk S) (ys @ q # p # r # ws)"
    and fp: "fpath (nxt S) (ys @ q # p # r # ws)" and bp: "bpath (prv S) (ys @ q # p # r # ws)"
    and ph: "prv S h = None" and nt: "nxt S t = None"
    unfolding chain_def cells by auto
  let ?S1 = "upd_node (upd_node (upd_node (upd_node S q (\<lambda>n. n\<lparr>next' := Some r\<rparr>))
               r (\<lambda>n. n\<lparr>prev := Some q\<rparr>)) p (\<lambda>n. n\<lparr>next' := None\<rparr>)) p (\<lambda>n. n\<lparr>prev := None\<rparr>)"
  let ?S' = "?S1\<lparr>objs := (objs S)(l \<mapsto> L\<lparr>sz := sz L - 1\<rparr>)\<rparr>"
  have pq: "alive S p" "alive S q" "alive S r" "prv S p = Some q" "nxt S p = Some r"
    using al fp bp by (auto simp: list_all_iff)
  have run: "erase_node S l (Some p) = Inr (Some p, ?S')"
    using pq L(1,4) by (simp add: erase_node_def dec_sz_def)
  have cells': "h # (xs @ zs) @ [t] = ys @ q # r # ws"
    using q r by simp
  have hq: "h \<in> set (ys @ [q])" "h \<noteq> r" "h \<noteq> p" "t \<in> set (r # ws)" "t \<noteq> q" "t \<noteq> p"
    using q r(1) d by (auto simp: Cons_eq_append_conv append_eq_Cons_conv)
  have ch: "chain ?S' h (xs @ zs) t"
    unfolding chain_def cells'
    using d al fp bp ph nt hq pq
    by (auto simp: list_all_iff)
  have vals: "vl ?S' h = None \<and> vl ?S' t = None \<and> list_all (\<lambda>a. vl ?S' a \<noteq> None) (xs @ zs)"
    using L(6-8) pq
    by (auto simp: list_all_iff)
  have il': "is_list ?S' l h (xs @ zs) t"
    using ch vals L(2-4) by (simp add: is_list_def)
  have "alive ?S' p \<and> nxt ?S' p = None \<and> prv ?S' p = None \<and> vl ?S' = vl S"
    using pq by simp
  then show ?thesis
    using run il' by blast
qed

lemma node_from_views:
  "alive S a \<Longrightarrow> nodes S a = Some \<lparr>prev = prv S a, next' = nxt S a, val = vl S a\<rparr>"
  by (cases "nodes S a") (auto simp: alive_def nxt_def prv_def vl_def)

text \<open>
  C6, as the source has it. The public \<^verbatim>\<open>erase\<close> destroys the node it removes: the
  node's links are not cleared, they are gone with the node, and an increment or a
  decrement of an iterator that is still on it reads freed memory, which no guard of
  the iterator detects. The protected helper \<^verbatim>\<open>erase(node*)\<close>, which no public operation
  calls, is what clears both links of the node it unlinks and leaves the node allocated.
  An increment or a decrement of an iterator on such a node does not fail either: it
  succeeds and leaves the iterator on no node, and only a further increment or decrement
  of that iterator fails with \<^verbatim>\<open>invalid_iterator\<close>.
\<close>

theorem removed_node_iterators:
  assumes "is_list S l h (xs @ p # zs) t"
  shows "(\<exists>S'. list_erase S l \<lparr>cur = Some p, owner = Some l\<rparr> =
                 Inr (\<lparr>cur = Some (hd (zs @ [t])), owner = Some l\<rparr>, S') \<and>
               nodes S' p = None \<and>
               (let it = \<lparr>cur = Some p, owner = Some l\<rparr> in
                iterator_pre_inc S' it = Inl undefined_behaviour \<and>
                iterator_post_inc S' it = Inl undefined_behaviour \<and>
                iterator_pre_dec S' it = Inl undefined_behaviour \<and>
                iterator_post_dec S' it = Inl undefined_behaviour \<and>
                const_iterator_pre_inc S' it = Inl undefined_behaviour \<and>
                const_iterator_post_inc S' it = Inl undefined_behaviour \<and>
                const_iterator_pre_dec S' it = Inl undefined_behaviour \<and>
                const_iterator_post_dec S' it = Inl undefined_behaviour)) \<and>
         (\<exists>S'. erase_node S l (Some p) = Inr (Some p, S') \<and>
               is_list S' l h (xs @ zs) t \<and>
               nodes S' p = Some \<lparr>prev = None, next' = None, val = vl S p\<rparr> \<and>
               (let it = \<lparr>cur = Some p, owner = Some l\<rparr>; it0 = \<lparr>cur = None, owner = Some l\<rparr> in
                iterator_pre_inc S' it = Inr it0 \<and>
                iterator_post_inc S' it = Inr (it, it0) \<and>
                iterator_pre_dec S' it = Inr it0 \<and>
                iterator_post_dec S' it = Inr (it, it0) \<and>
                const_iterator_pre_inc S' it = Inr it0 \<and>
                const_iterator_post_inc S' it = Inr (it, it0) \<and>
                const_iterator_pre_dec S' it = Inr it0 \<and>
                const_iterator_post_dec S' it = Inr (it, it0) \<and>
                iterator_pre_inc S' it0 = Inl invalid_iterator \<and>
                iterator_post_inc S' it0 = Inl invalid_iterator \<and>
                iterator_pre_dec S' it0 = Inl invalid_iterator \<and>
                iterator_post_dec S' it0 = Inl invalid_iterator \<and>
                const_iterator_pre_inc S' it0 = Inl invalid_iterator \<and>
                const_iterator_post_inc S' it0 = Inl invalid_iterator \<and>
                const_iterator_pre_dec S' it0 = Inl invalid_iterator \<and>
                const_iterator_post_dec S' it0 = Inl invalid_iterator))"
proof -
  have pn: "p \<noteq> h" "p \<noteq> t"
    using assms by (auto simp: is_list_def chain_def split: option.splits)
  from list_erase_ok[OF assms] obtain S1 where S1:
    "list_erase S l \<lparr>cur = Some p, owner = Some l\<rparr> =
                 Inr (\<lparr>cur = Some (hd (zs @ [t])), owner = Some l\<rparr>, S1)"
    "is_list S1 l h (xs @ zs) t" "nodes S1 p = None"
    by blast
  from S1(2) obtain L1 where L1: "objs S1 l = Some L1" "head L1 = Some h" "tail L1 = Some t"
    by (rule is_listD)
  have dead: "\<not> alive S1 p" using S1(3) by (simp add: alive_def)
  have A: "\<exists>S'. list_erase S l \<lparr>cur = Some p, owner = Some l\<rparr> =
                 Inr (\<lparr>cur = Some (hd (zs @ [t])), owner = Some l\<rparr>, S') \<and>
               nodes S' p = None \<and>
               (let it = \<lparr>cur = Some p, owner = Some l\<rparr> in
                iterator_pre_inc S' it = Inl undefined_behaviour \<and>
                iterator_post_inc S' it = Inl undefined_behaviour \<and>
                iterator_pre_dec S' it = Inl undefined_behaviour \<and>
                iterator_post_dec S' it = Inl undefined_behaviour \<and>
                const_iterator_pre_inc S' it = Inl undefined_behaviour \<and>
                const_iterator_post_inc S' it = Inl undefined_behaviour \<and>
                const_iterator_pre_dec S' it = Inl undefined_behaviour \<and>
                const_iterator_post_dec S' it = Inl undefined_behaviour)"
    using S1(1,3) L1 dead pn
    by (intro exI[of _ S1])
       (simp add: iterator_pre_inc_def iterator_post_inc_def iterator_pre_dec_def
          iterator_post_dec_def const_iterator_pre_inc_def const_iterator_post_inc_def
          const_iterator_pre_dec_def const_iterator_post_dec_def Let_def)
  from erase_node_ok[OF assms] obtain S2 where S2:
    "erase_node S l (Some p) = Inr (Some p, S2)" "is_list S2 l h (xs @ zs) t"
    "alive S2 p" "nxt S2 p = None" "prv S2 p = None" "vl S2 = vl S"
    by blast
  from S2(2) obtain L2 where L2: "objs S2 l = Some L2" "head L2 = Some h" "tail L2 = Some t"
    by (rule is_listD)
  have node: "nodes S2 p = Some \<lparr>prev = None, next' = None, val = vl S p\<rparr>"
    using node_from_views[OF S2(3)] S2(4-6) by simp
  have B: "\<exists>S'. erase_node S l (Some p) = Inr (Some p, S') \<and>
               is_list S' l h (xs @ zs) t \<and>
               nodes S' p = Some \<lparr>prev = None, next' = None, val = vl S p\<rparr> \<and>
               (let it = \<lparr>cur = Some p, owner = Some l\<rparr>; it0 = \<lparr>cur = None, owner = Some l\<rparr> in
                iterator_pre_inc S' it = Inr it0 \<and>
                iterator_post_inc S' it = Inr (it, it0) \<and>
                iterator_pre_dec S' it = Inr it0 \<and>
                iterator_post_dec S' it = Inr (it, it0) \<and>
                const_iterator_pre_inc S' it = Inr it0 \<and>
                const_iterator_post_inc S' it = Inr (it, it0) \<and>
                const_iterator_pre_dec S' it = Inr it0 \<and>
                const_iterator_post_dec S' it = Inr (it, it0) \<and>
                iterator_pre_inc S' it0 = Inl invalid_iterator \<and>
                iterator_post_inc S' it0 = Inl invalid_iterator \<and>
                iterator_pre_dec S' it0 = Inl invalid_iterator \<and>
                iterator_post_dec S' it0 = Inl invalid_iterator \<and>
                const_iterator_pre_inc S' it0 = Inl invalid_iterator \<and>
                const_iterator_post_inc S' it0 = Inl invalid_iterator \<and>
                const_iterator_pre_dec S' it0 = Inl invalid_iterator \<and>
                const_iterator_post_dec S' it0 = Inl invalid_iterator)"
    using S2(1-5) L2 node pn
    by (intro exI[of _ S2])
       (simp add: iterator_pre_inc_def iterator_post_inc_def iterator_pre_dec_def
          iterator_post_dec_def const_iterator_pre_inc_def const_iterator_post_inc_def
          const_iterator_pre_dec_def const_iterator_post_dec_def Let_def)
  from A B show ?thesis by (rule conjI)
qed

lemma is_list_store_135_split: "is_list store_135 0 0 ([] @ 2 # [3, 4]) 1"
  using is_list_store_135 by simp

theorem removed_node_iterators_witness:
  "is_list store_135 0 0 ([] @ 2 # [3, 4]) 1 \<and>
   (\<exists>S'. list_erase store_135 0 \<lparr>cur = Some 2, owner = Some 0\<rparr> =
            Inr (\<lparr>cur = Some 3, owner = Some 0\<rparr>, S') \<and> nodes S' 2 = None \<and>
          iterator_pre_inc S' \<lparr>cur = Some 2, owner = Some 0\<rparr> = Inl undefined_behaviour) \<and>
   (\<exists>S'. erase_node store_135 0 (Some 2) = Inr (Some 2, S') \<and>
          nodes S' 2 = Some \<lparr>prev = None, next' = None, val = Some 1\<rparr> \<and>
          iterator_pre_inc S' \<lparr>cur = Some 2, owner = Some 0\<rparr> = Inr \<lparr>cur = None, owner = Some 0\<rparr> \<and>
          iterator_pre_inc S' \<lparr>cur = None, owner = Some 0\<rparr> = Inl invalid_iterator)"
proof -
  note c = removed_node_iterators [OF is_list_store_135_split]
  have v: "vl store_135 2 = Some 1" by (simp add: store_135_def vl_def)
  from c have 1: "\<exists>S'. list_erase store_135 0 \<lparr>cur = Some 2, owner = Some 0\<rparr> =
            Inr (\<lparr>cur = Some 3, owner = Some 0\<rparr>, S') \<and> nodes S' 2 = None \<and>
          iterator_pre_inc S' \<lparr>cur = Some 2, owner = Some 0\<rparr> = Inl undefined_behaviour"
    by (auto simp: Let_def)
  from c have 2: "\<exists>S'. erase_node store_135 0 (Some 2) = Inr (Some 2, S') \<and>
          nodes S' 2 = Some \<lparr>prev = None, next' = None, val = Some 1\<rparr> \<and>
          iterator_pre_inc S' \<lparr>cur = Some 2, owner = Some 0\<rparr> = Inr \<lparr>cur = None, owner = Some 0\<rparr> \<and>
          iterator_pre_inc S' \<lparr>cur = None, owner = Some 0\<rparr> = Inl invalid_iterator"
    unfolding v by (auto simp: Let_def)
  show ?thesis using is_list_store_135_split 1 2 by blast
qed

text \<open>
  The claim has the erased node's links cleared and the next increment or decrement of
  an iterator on it fail with \<^verbatim>\<open>invalid_iterator\<close>. On the list \<open>[1, 3, 5]\<close>, after
  \<^verbatim>\<open>erase(begin())\<close> the node is freed and both operations run into undefined behaviour;
  after the helper \<^verbatim>\<open>erase(node*)\<close> on the same node both operations succeed.
\<close>

theorem erased_iterator_counterexample:
  "(case list_erase store_135 0 \<lparr>cur = Some 2, owner = Some 0\<rparr> of
      Inl e \<Rightarrow> False
    | Inr (it, S') \<Rightarrow>
        nodes S' 2 = None \<and>
        iterator_pre_inc S' \<lparr>cur = Some 2, owner = Some 0\<rparr> = Inl undefined_behaviour \<and>
        iterator_pre_dec S' \<lparr>cur = Some 2, owner = Some 0\<rparr> = Inl undefined_behaviour) \<and>
   (case erase_node store_135 0 (Some 2) of
      Inl e \<Rightarrow> False
    | Inr (p, S') \<Rightarrow>
        iterator_pre_inc S' \<lparr>cur = Some 2, owner = Some 0\<rparr> = Inr \<lparr>cur = None, owner = Some 0\<rparr> \<and>
        iterator_pre_dec S' \<lparr>cur = Some 2, owner = Some 0\<rparr> = Inr \<lparr>cur = None, owner = Some 0\<rparr>)"
  by code_simp

section \<open>push_back and traversal\<close>

lemma is_list_cell:
  assumes "is_list S l h (xs @ a # zs) t"
  shows "alive S a" "a \<noteq> t" "a \<noteq> h" "nxt S a = Some (hd (zs @ [t]))" "prv S a = Some (last (h # xs))"
proof -
  from assms have c: "chain S h (xs @ a # zs) t" by (rule is_listD)
  obtain ys q where q: "h # xs = ys @ [q]" using snoc_split[of h xs] by blast
  obtain r ws where r: "zs @ [t] = r # ws" "r = hd (zs @ [t])" using hd_split[of zs t] by blast
  have cells: "h # (xs @ a # zs) @ [t] = ys @ q # a # r # ws"
    using q r by simp
  have lq: "last (h # xs) = q" using q by (metis last_snoc)
  from c have d: "distinct (ys @ q # a # r # ws)"
    and al: "list_all (\<lambda>a. alive S a \<and> a < brk S) (ys @ q # a # r # ws)"
    and fp: "fpath (nxt S) (ys @ q # a # r # ws)" and bp: "bpath (prv S) (ys @ q # a # r # ws)"
    unfolding chain_def cells by auto
  show "alive S a" using al by (simp add: list_all_iff)
  show "a \<noteq> t" "a \<noteq> h" using c by (auto simp: chain_def)
  show "nxt S a = Some (hd (zs @ [t]))" using fp r(2) by simp
  show "prv S a = Some (last (h # xs))" using bp lq by simp
qed

lemma list_push_back_ok:
  assumes il: "is_list S l h as t"
  shows "\<exists>S'. list_push_back S l v = Inr S' \<and> is_list S' l h (as @ [brk S]) t \<and>
              vl S' = (vl S)(brk S := Some v) \<and> brk S' = Suc (brk S) \<and>
              (\<forall>a. a \<notin> set (h # as @ [t]) \<and> a \<noteq> brk S \<longrightarrow> nodes S' a = nodes S a) \<and>
              (\<forall>l'. l' \<noteq> l \<longrightarrow> objs S' l' = objs S l')"
proof -
  from il obtain L where L: "objs S l = Some L" "tail L = Some t" by (rule is_listD)
  from il have il': "is_list S l h (as @ []) t" by simp
  from list_insert_ok[OF il', of v] L show ?thesis
    by (auto simp: list_push_back_def list_end_def)
qed

lemma fresh_cell:
  assumes "is_list S l h as t"
  shows "brk S \<notin> set (h # as @ [t])"
proof -
  from assms have "chain S h as t" by (rule is_listD)
  then show ?thesis by (auto simp: chain_def list_all_iff)
qed

lemma push_back_all_ok:
  assumes "is_list S l h as t" "holds S as ws"
  shows "\<exists>S' bs. push_back_all S l vs = Inr S' \<and> is_list S' l h (as @ bs) t \<and>
                 holds S' (as @ bs) (ws @ vs)"
  using assms
proof (induction vs arbitrary: S as ws)
  case Nil
  then show ?case by (auto intro: exI[of _ "[]"])
next
  case (Cons v vs)
  from list_push_back_ok[OF Cons.prems(1), of v] obtain S1 where S1:
    "list_push_back S l v = Inr S1" "is_list S1 l h (as @ [brk S]) t"
    "vl S1 = (vl S)(brk S := Some v)"
    by blast
  have fr: "brk S \<notin> set as" using fresh_cell[OF Cons.prems(1)] by simp
  have h1: "holds S1 (as @ [brk S]) (ws @ [v])"
    using Cons.prems(2) S1(3) fr by (simp add: holds_def)
  from Cons.IH[OF S1(2) h1] obtain S' bs where
    "push_back_all S1 l vs = Inr S'" "is_list S' l h ((as @ [brk S]) @ bs) t"
    "holds S' ((as @ [brk S]) @ bs) ((ws @ [v]) @ vs)"
    by blast
  then show ?case using S1(1)
    by (intro exI[of _ S'] exI[of _ "brk S # bs"]) simp
qed

lemma traverse_loop_ok:
  assumes "is_list S l h (xs @ zs) t" "holds S zs vs"
  shows "traverse_loop S \<lparr>cur = Some (hd (zs @ [t])), owner = Some l\<rparr>
           \<lparr>cur = Some t, owner = Some l\<rparr> out = Some (Inr (out @ vs))"
  using assms
proof (induction zs arbitrary: xs vs out)
  case Nil
  then show ?case
    by (subst traverse_loop.simps) (simp add: iterator_ne_def iterator_eq_def holds_def)
next
  case (Cons a zs)
  from Cons.prems(2) obtain v vs' where vs: "vs = v # vs'" "vl S a = Some v" "holds S zs vs'"
    by (auto simp: holds_def)
  from Cons.prems(1) obtain L where L: "objs S l = Some L" "tail L = Some t" by (rule is_listD)
  note c = is_list_cell[OF Cons.prems(1)]
  have il: "is_list S l h ((xs @ [a]) @ zs) t" using Cons.prems(1) by simp
  have step: "ebind (iterator_deref S \<lparr>cur = Some a, owner = Some l\<rparr>) (\<lambda>v.
              ebind (iterator_pre_inc S \<lparr>cur = Some a, owner = Some l\<rparr>) (\<lambda>it. Inr (v, it))) =
              Inr (v, \<lparr>cur = Some (hd (zs @ [t])), owner = Some l\<rparr>)"
    using c L vs(2) by (simp add: iterator_deref_def iterator_pre_inc_def)
  show ?case
    using c(2) step Cons.IH[OF il vs(3), of "out @ [v]"] vs(1)
    by (subst traverse_loop.simps) (simp add: iterator_ne_def iterator_eq_def)
qed

lemma traverse_ok:
  assumes "is_list S l h as t" "holds S as vs"
  shows "traverse S l = Some (Inr vs)"
proof -
  from assms(1) obtain L where L: "objs S l = Some L" "head L = Some h" "tail L = Some t"
    "sz L = length as" "chain S h as t"
    by (rule is_listD)
  have b: "list_begin S l = Inr \<lparr>cur = Some (hd (as @ [t])), owner = Some l\<rparr>"
    using L chain_nxt_head[OF L(5)] chain_alive[OF L(5), of h]
    by (cases as) (simp_all add: list_begin_def)
  have e: "list_end S l = Inr \<lparr>cur = Some t, owner = Some l\<rparr>"
    using L by (simp add: list_end_def)
  from assms(1) have "is_list S l h ([] @ as) t" by simp
  from traverse_loop_ok[OF this assms(2), of "[]"] b e show ?thesis
    by (simp add: traverse_def)
qed

text \<open>
  C9. Starting from an empty list that satisfies the invariant, every sequence of
  \<^verbatim>\<open>push_back\<close> calls returns, the loop from \<^verbatim>\<open>begin()\<close> to \<^verbatim>\<open>end()\<close> then ends and reads
  exactly the pushed values in the order of the calls, and \<^verbatim>\<open>size()\<close> is the number of
  calls. The list that the default constructor builds is such a list, in every store.
\<close>

theorem push_back_sequence:
  assumes "is_list S l h [] t"
  shows "\<exists>S'. push_back_all S l vs = Inr S' \<and> traverse S' l = Some (Inr vs) \<and>
              list_size S' l = Inr (length vs)"
proof -
  have "holds S [] []" by (simp add: holds_def)
  from push_back_all_ok[OF assms this, of vs] obtain S' bs where S':
    "push_back_all S l vs = Inr S'" "is_list S' l h bs t" "holds S' bs vs"
    by auto
  from S'(2) obtain L where L: "objs S' l = Some L" "sz L = length bs" by (rule is_listD)
  have "length bs = length vs"
    using S'(3) by (metis holds_def length_map)
  then have "list_size S' l = Inr (length vs)"
    using L by (simp add: list_size_def)
  then show ?thesis
    using S'(1) traverse_ok[OF S'(2,3)] by blast
qed

lemma is_list_store_nil: "is_list store_nil 0 0 [] 1"
  by (simp add: store_nil_def is_list_def chain_def alive_def nxt_def prv_def vl_def)

theorem push_back_sequence_witness:
  "is_list store_nil 0 0 [] 1 \<and>
   (\<exists>S'. push_back_all store_nil 0 [1, 3, 5] = Inr S' \<and> traverse S' 0 = Some (Inr [1, 3, 5]) \<and>
          list_size S' 0 = Inr 3)"
proof -
  have "length [1, 3, 5 :: nat] = 3" by simp
  with push_back_sequence [OF is_list_store_nil, of "[1, 3, 5]"] is_list_store_nil
  show ?thesis by metis
qed

section \<open>reverse\<close>

lemma fpath_tl: "fpath f (x # xs) \<Longrightarrow> fpath f xs"
  by (cases xs) auto

lemma bpath_tl: "bpath g (x # xs) \<Longrightarrow> bpath g xs"
  by (cases xs) auto

lemma fpath_butlast: "fpath f (xs @ [x]) \<Longrightarrow> fpath f xs"
  by (induction f xs rule: fpath.induct) auto

lemma bpath_butlast: "bpath g (xs @ [x]) \<Longrightarrow> bpath g xs"
  by (induction g xs rule: bpath.induct) auto

lemma fpath_appendD: "fpath f (xs @ ys) \<Longrightarrow> fpath f xs \<and> fpath f ys"
  by (induction f xs rule: fpath.induct) (auto dest: fpath_tl)

lemma bpath_appendD: "bpath g (xs @ ys) \<Longrightarrow> bpath g xs \<and> bpath g ys"
  by (induction g xs rule: bpath.induct) (auto dest: bpath_tl)

lemma ends_split:
  assumes "2 \<le> length (mid :: 'b list)"
  obtains a mid' b where "mid = a # mid' @ [b]"
proof -
  from assms obtain a rest where 1: "mid = a # rest" "rest \<noteq> []"
    by (cases mid) force+
  then obtain mid' b where "rest = mid' @ [b]"
    by (metis append_butlast_last_id)
  with 1 that show thesis by blast
qed

lemma reverse_loop_ok:
  assumes "distinct mid" "list_all (alive S) mid" "fpath (nxt S) mid" "bpath (prv S) mid"
    "k = length mid div 2" "2 \<le> length mid \<longrightarrow> l = Some (hd mid) \<and> r = Some (last mid)"
  shows "\<exists>S'. reverse_loop k S l r = Inr S' \<and> alive S' = alive S \<and> nxt S' = nxt S \<and>
              prv S' = prv S \<and> objs S' = objs S \<and> brk S' = brk S \<and>
              map (vl S') mid = rev (map (vl S) mid) \<and> (\<forall>a. a \<notin> set mid \<longrightarrow> vl S' a = vl S a)"
  using assms
proof (induction k arbitrary: S mid l r)
  case 0
  then have "length mid \<le> 1" by simp
  then have "map (vl S) mid = rev (map (vl S) mid)"
    by (cases mid) auto
  then show ?case by simp
next
  case (Suc k)
  then have "2 \<le> length mid" by simp
  then obtain a mid' b where mid: "mid = a # mid' @ [b]" by (rule ends_split)
  from Suc.prems(6) mid have lr: "l = Some a" "r = Some b" by simp_all
  from Suc.prems(1,2) mid have ab: "a \<noteq> b" "alive S a" "alive S b" "a \<notin> set mid'" "b \<notin> set mid'"
    "distinct mid'" "list_all (alive S) mid'"
    by auto
  let ?S1 = "upd_node (upd_node S a (\<lambda>n. n\<lparr>val := vl S b\<rparr>)) b (\<lambda>n. n\<lparr>val := vl S a\<rparr>)"
  have na: "nxt S a = Some (hd (mid' @ [b]))"
    using Suc.prems(3) mid by (cases mid') auto
  have pb: "prv S b = Some (last (a # mid'))"
  proof -
    have "a # mid' @ [b] = butlast (a # mid') @ [last (a # mid'), b]"
      by (metis append_butlast_last_id append.assoc append_Cons append_Nil list.distinct(1))
    with Suc.prems(4) mid have "bpath (prv S) (butlast (a # mid') @ [last (a # mid'), b])"
      by simp
    then show ?thesis by (rule bpath_last)
  qed
  have step: "reverse_loop (Suc k) S l r =
               reverse_loop k ?S1 (Some (hd (mid' @ [b]))) (Some (last (a # mid')))"
    using lr ab na pb by simp
  have p1: "fpath (nxt ?S1) mid'" "bpath (prv ?S1) mid'"
    using Suc.prems(3,4) mid fpath_tl[of "nxt S" a "mid' @ [b]"] bpath_tl[of "prv S" a "mid' @ [b]"]
      fpath_butlast[of "nxt S" mid' b] bpath_butlast[of "prv S" mid' b]
    by auto
  have k: "k = length mid' div 2" using Suc.prems(5) mid by simp
  have ptr: "2 \<le> length mid' \<longrightarrow>
              Some (hd (mid' @ [b])) = Some (hd mid') \<and> Some (last (a # mid')) = Some (last mid')"
    by (cases mid') auto
  have al1: "list_all (alive ?S1) mid'" using ab by simp
  from Suc.IH[OF ab(6) al1 p1 k ptr] obtain S' where S':
    "reverse_loop k ?S1 (Some (hd (mid' @ [b]))) (Some (last (a # mid'))) = Inr S'"
    "alive S' = alive ?S1" "nxt S' = nxt ?S1" "prv S' = prv ?S1" "objs S' = objs ?S1"
    "brk S' = brk ?S1" "map (vl S') mid' = rev (map (vl ?S1) mid')"
    "\<forall>a. a \<notin> set mid' \<longrightarrow> vl S' a = vl ?S1 a"
    by blast
  have v1: "vl ?S1 = (vl S)(a := vl S b, b := vl S a)"
    using ab by simp
  have m: "map (vl ?S1) mid' = map (vl S) mid'"
    using ab(4,5) unfolding v1 by (intro map_cong) auto
  have "map (vl S') mid = rev (map (vl S) mid)"
    using S'(7,8) ab(1,4,5) m unfolding mid v1 by simp
  moreover have "\<forall>x. x \<notin> set mid \<longrightarrow> vl S' x = vl S x"
    using S'(8) unfolding mid v1 by simp
  ultimately show ?case
    using step S'(1-6) ab by simp
qed

lemma list_reverse_ok:
  assumes il: "is_list S l h as t" and ho: "holds S as vs"
  shows "\<exists>S'. list_reverse S l = Inr S' \<and> is_list S' l h as t \<and> holds S' as (rev vs) \<and>
              alive S' = alive S \<and> nxt S' = nxt S \<and> prv S' = prv S \<and>
              objs S' = objs S \<and> brk S' = brk S \<and> (\<forall>a. a \<notin> set as \<longrightarrow> vl S' a = vl S a)"
proof -
  from il obtain L where L: "objs S l = Some L" "head L = Some h" "tail L = Some t"
    "sz L = length as" "chain S h as t" "vl S h = None" "vl S t = None"
    "list_all (\<lambda>a. vl S a \<noteq> None) as"
    by (rule is_listD)
  show ?thesis
  proof (cases "length as \<le> 1")
    case True
    then have "rev vs = vs" using ho
      by (cases vs) (auto simp: holds_def)
    then show ?thesis using True L(1,4) il ho by (simp add: list_reverse_def)
  next
    case False
    then have ne: "as \<noteq> []" "2 \<le> length as" by auto
    from L(5) have d: "distinct as" "list_all (alive S) as" "fpath (nxt S) as" "bpath (prv S) as"
      "alive S h" "alive S t" "h \<notin> set as" "t \<notin> set as"
      using fpath_appendD[of "nxt S" "[h]" "as @ [t]"] fpath_appendD[of "nxt S" "h # as" "[t]"]
        bpath_appendD[of "prv S" "[h]" "as @ [t]"] bpath_appendD[of "prv S" "h # as" "[t]"]
        fpath_tl[of "nxt S" h as] bpath_tl[of "prv S" h as]
      by (auto simp: chain_def list_all_iff)
    have nh: "nxt S h = Some (hd as)" using chain_nxt_head[OF L(5)] ne by simp
    have pt: "prv S t = Some (last as)" using chain_prv_tail[OF L(5)] ne by simp
    have "\<exists>S'. reverse_loop (length as div 2) S (Some (hd as)) (Some (last as)) = Inr S' \<and>
              alive S' = alive S \<and> nxt S' = nxt S \<and>
              prv S' = prv S \<and> objs S' = objs S \<and> brk S' = brk S \<and>
              map (vl S') as = rev (map (vl S) as) \<and> (\<forall>a. a \<notin> set as \<longrightarrow> vl S' a = vl S a)"
      using d(1-4) by (intro reverse_loop_ok) auto
    then obtain S' where S': "reverse_loop (length as div 2) S (Some (hd as)) (Some (last as)) = Inr S'"
      "alive S' = alive S" "nxt S' = nxt S" "prv S' = prv S" "objs S' = objs S" "brk S' = brk S"
      "map (vl S') as = rev (map (vl S) as)" "\<forall>a. a \<notin> set as \<longrightarrow> vl S' a = vl S a"
      by blast
    have run: "list_reverse S l = Inr S'"
      using L(1-4) False d(5,6) nh pt S'(1) by (simp add: list_reverse_def)
    have ho': "holds S' as (rev vs)"
      using S'(7) ho by (simp add: holds_def rev_map[symmetric])
    have ch: "chain S' h as t"
      using L(5) S'(2-6) by (simp add: chain_def)
    have "list_all (\<lambda>a. vl S' a \<noteq> None) as"
    proof -
      have "\<forall>x \<in> set (map (vl S') as). x \<noteq> None"
        using ho' unfolding holds_def by auto
      then show ?thesis by (simp add: list_all_iff)
    qed
    then have "is_list S' l h as t"
      using ch L(1-4,6,7) S'(5,8) d(7,8) by (simp add: is_list_def)
    then show ?thesis using run ho' S'(2-6,8) by blast
  qed
qed

lemma state_eqI:
  assumes "alive S' = alive S" "nxt S' = nxt S" "prv S' = prv S" "vl S' = vl S"
    "objs S' = objs S" "brk S' = brk S"
  shows "S' = (S :: 'a state)"
proof -
  have "nodes S' = nodes S"
    using assms(1-4) by (intro ext node_eqI) simp_all
  then show ?thesis using assms(5,6) by (cases S; cases S') simp
qed

text \<open>
  C8. On a list that satisfies the invariant, of any length, \<^verbatim>\<open>reverse\<close> returns, and
  afterwards the same nodes are linked in the same order with the values reversed: no
  link has changed, no node has been allocated or destroyed, the nodes outside the list
  are as they were, and the middle node of a list of odd length is as it was. A second
  \<^verbatim>\<open>reverse\<close> gives back the store that the first one started from.
\<close>

theorem reverse_contract:
  assumes "is_list S l h as t" "holds S as vs"
  shows "\<exists>S'. list_reverse S l = Inr S' \<and> is_list S' l h as t \<and> holds S' as (rev vs) \<and>
              alive S' = alive S \<and> nxt S' = nxt S \<and> prv S' = prv S \<and>
              objs S' = objs S \<and> brk S' = brk S \<and>
              (\<forall>a. a \<notin> set as \<longrightarrow> nodes S' a = nodes S a) \<and>
              (odd (length as) \<longrightarrow>
                 nodes S' (as ! (length as div 2)) = nodes S (as ! (length as div 2))) \<and>
              list_reverse S' l = Inr S"
proof -
  from list_reverse_ok[OF assms] obtain S' where S': "list_reverse S l = Inr S'"
    "is_list S' l h as t" "holds S' as (rev vs)" "alive S' = alive S" "nxt S' = nxt S"
    "prv S' = prv S" "objs S' = objs S" "brk S' = brk S" "\<forall>a. a \<notin> set as \<longrightarrow> vl S' a = vl S a"
    by blast
  from list_reverse_ok[OF S'(2,3)] obtain S'' where S'': "list_reverse S' l = Inr S''"
    "holds S'' as (rev (rev vs))" "alive S'' = alive S'" "nxt S'' = nxt S'"
    "prv S'' = prv S'" "objs S'' = objs S'" "brk S'' = brk S'"
    "\<forall>a. a \<notin> set as \<longrightarrow> vl S'' a = vl S' a"
    by blast
  have "map (vl S'') as = map (vl S) as"
    using S''(2) assms(2) by (simp add: holds_def)
  then have "\<forall>a \<in> set as. vl S'' a = vl S a" by simp
  then have "vl S'' = vl S" using S''(8) S'(9) by (intro ext) metis
  then have again: "S'' = S"
    using S''(3-7) S'(4-8) by (intro state_eqI) simp_all
  have frame: "\<forall>a. a \<notin> set as \<longrightarrow> nodes S' a = nodes S a"
    using S'(4-6,9) by (auto intro!: node_eqI)
  have mid: "odd (length as) \<longrightarrow>
                 nodes S' (as ! (length as div 2)) = nodes S (as ! (length as div 2))"
  proof
    assume o: "odd (length as)"
    let ?j = "length as div 2"
    have len: "length vs = length as" using assms(2) by (metis holds_def length_map)
    have j: "?j < length as" "length as - Suc ?j = ?j" using o by (auto elim!: oddE)
    have "map (vl S') as ! ?j = map Some (rev vs) ! ?j" using S'(3) by (simp add: holds_def)
    then have "vl S' (as ! ?j) = Some (rev vs ! ?j)" using j len by simp
    also have "rev vs ! ?j = vs ! ?j" using j len by (simp add: rev_nth)
    also have "Some (vs ! ?j) = map Some vs ! ?j" using j len by simp
    also have "\<dots> = map (vl S) as ! ?j" using assms(2) by (simp add: holds_def)
    also have "\<dots> = vl S (as ! ?j)" using j by simp
    finally have "vl S' (as ! ?j) = vl S (as ! ?j)" .
    then show "nodes S' (as ! ?j) = nodes S (as ! ?j)"
      using S'(4-6) by (intro node_eqI) simp_all
  qed
  show ?thesis
    using S'(1-8) S''(1) again frame mid by blast
qed

lemma holds_store_135: "holds store_135 [2, 3, 4] [1, 3, 5]"
  by (simp add: holds_def store_135_def vl_def)

theorem reverse_contract_witness:
  "is_list store_135 0 0 [2, 3, 4] 1 \<and> holds store_135 [2, 3, 4] [1, 3, 5] \<and>
   (\<exists>S'. list_reverse store_135 0 = Inr S' \<and> is_list S' 0 0 [2, 3, 4] 1 \<and>
          holds S' [2, 3, 4] [5, 3, 1] \<and> nodes S' 3 = nodes store_135 3 \<and>
          list_reverse S' 0 = Inr store_135)"
  using reverse_contract [OF is_list_store_135 holds_store_135] is_list_store_135 holds_store_135
  by auto

section \<open>Runs of equal elements\<close>

lemma keep_firsts_map_aux:
  "R' = (\<lambda>a b. R (g a) (g b)) \<Longrightarrow> keep_firsts R (map g xs) = map g (keep_firsts R' xs)"
  by (induction R' xs rule: keep_firsts.induct) (auto simp: dropWhile_map comp_def)

lemma keep_firsts_map:
  "keep_firsts R (map g xs) = map g (keep_firsts (\<lambda>a b. R (g a) (g b)) xs)"
  by (rule keep_firsts_map_aux) simp

lemma remdups_adj_dropWhile: "remdups_adj (x # xs) = x # remdups_adj (dropWhile ((=) x) xs)"
  by (induction xs) auto

lemma keep_firsts_eq_aux: "R = (=) \<Longrightarrow> keep_firsts R xs = remdups_adj xs"
  by (induction R xs rule: keep_firsts.induct)
    (auto simp: remdups_adj_dropWhile simp del: remdups_adj.simps(2,3))

lemma keep_firsts_eq: "keep_firsts (=) xs = remdups_adj xs"
  by (rule keep_firsts_eq_aux) simp

lemma set_keep_firsts: "set (keep_firsts R xs) \<subseteq> set xs"
proof (induction R xs rule: keep_firsts.induct)
  case (1 eq)
  then show ?case by simp
next
  case (2 eq x xs)
  then show ?case using set_dropWhileD by fastforce
qed

section \<open>unique\<close>

lemma get_value_simps [simp]:
  "vl S a = Some v \<Longrightarrow> alive S a \<Longrightarrow> get_value S (Some a) = Inr v"
  by (simp add: get_value_def)

lemma unique_drop_eq:
  assumes "list_erase S l \<lparr>cur = Some b, owner = Some l\<rparr> = Inr (it, S')"
  shows "unique_drop S l (Some b) = Inr (S', cur it)"
  using assms
  by (auto simp: list_erase_def unique_drop_def Let_def ebind_def
      split: if_splits sum.splits)

lemma is_list_distinct:
  assumes "is_list S l h as t"
  shows "distinct (h # as @ [t])"
proof -
  from assms have "chain S h as t" by (rule is_listD)
  then show ?thesis by (simp add: chain_def)
qed

lemma unique_inner_ok:
  assumes "is_list S l h (xs @ p # zs) t" "vl S p = Some v" "\<forall>a\<in>set zs. vl S a = Some (f a)"
    and P: "P = (\<lambda>b. \<not> ne v (f b))"
  shows "\<exists>S'. unique_inner ne S l (Some t) (Some p) (Some (hd (zs @ [t]))) =
                 Some (Inr (S', Some (hd (dropWhile P zs @ [t])))) \<and>
              is_list S' l h (xs @ p # dropWhile P zs) t \<and>
              (\<forall>a\<in>set zs. a \<notin> set (dropWhile P zs) \<longrightarrow> nodes S' a = None) \<and>
              (\<forall>a. a \<in> set (dropWhile P zs) \<or> a \<notin> set zs \<longrightarrow> vl S' a = vl S a) \<and>
              (\<forall>a. a \<notin> set (h # xs @ p # zs @ [t]) \<longrightarrow> nodes S' a = nodes S a) \<and>
              brk S' = brk S \<and> (\<forall>l'. l' \<noteq> l \<longrightarrow> objs S' l' = objs S l')"
  using assms(1-3)
proof (induction zs arbitrary: S)
  case Nil
  then show ?case
    by (subst unique_inner.simps) (simp add: unique_cond_def)
next
  case (Cons b zs)
  have ilp: "is_list S l h (xs @ p # (b # zs)) t" using Cons.prems(1) .
  have ilb: "is_list S l h ((xs @ [p]) @ b # zs) t" using Cons.prems(1) by simp
  note cp = is_list_cell[OF ilp] and cb = is_list_cell[OF ilb]
  have vb: "vl S b = Some (f b)" using Cons.prems(3) by simp
  have cond: "unique_cond ne S (Some t) (Some p) (Some b) = Inr (P b)"
    using cp(1) cb(1,2) vb Cons.prems(2) by (simp add: unique_cond_def P)
  note d = is_list_distinct[OF Cons.prems(1)]
  show ?case
  proof (cases "P b")
    case False
    then show ?thesis using cond ilp
      by (subst unique_inner.simps) simp
  next
    case True
    from list_erase_ok[OF ilb] obtain S1 where S1:
      "list_erase S l \<lparr>cur = Some b, owner = Some l\<rparr> =
         Inr (\<lparr>cur = Some (hd (zs @ [t])), owner = Some l\<rparr>, S1)"
      "is_list S1 l h ((xs @ [p]) @ zs) t" "nodes S1 b = None" "brk S1 = brk S"
      "\<forall>a. a \<noteq> b \<longrightarrow> vl S1 a = vl S a"
      "\<forall>a. a \<notin> set (h # (xs @ [p]) @ b # zs @ [t]) \<longrightarrow> nodes S1 a = nodes S a"
      "\<forall>l'. l' \<noteq> l \<longrightarrow> objs S1 l' = objs S l'"
      by blast
    have drop: "unique_drop S l (Some b) = Inr (S1, Some (hd (zs @ [t])))"
      using unique_drop_eq[OF S1(1)] by simp
    have il1: "is_list S1 l h (xs @ p # zs) t" using S1(2) by simp
    have v1: "vl S1 p = Some v" "\<forall>a\<in>set zs. vl S1 a = Some (f a)"
      using S1(5) Cons.prems(2,3) d by auto
    from Cons.IH[OF il1 v1] obtain S' where S':
      "unique_inner ne S1 l (Some t) (Some p) (Some (hd (zs @ [t]))) =
                 Some (Inr (S', Some (hd (dropWhile P zs @ [t]))))"
      "is_list S' l h (xs @ p # dropWhile P zs) t"
      "\<forall>a\<in>set zs. a \<notin> set (dropWhile P zs) \<longrightarrow> nodes S' a = None"
      "\<forall>a. a \<in> set (dropWhile P zs) \<or> a \<notin> set zs \<longrightarrow> vl S' a = vl S1 a"
      "\<forall>a. a \<notin> set (h # xs @ p # zs @ [t]) \<longrightarrow> nodes S' a = nodes S1 a"
      "brk S' = brk S1" "\<forall>l'. l' \<noteq> l \<longrightarrow> objs S' l' = objs S1 l'"
      by blast
    have run: "unique_inner ne S l (Some t) (Some p) (Some (hd ((b # zs) @ [t]))) =
                 Some (Inr (S', Some (hd (dropWhile P (b # zs) @ [t]))))"
      using cond True drop S'(1) by (subst unique_inner.simps) simp
    have bn: "b \<notin> set (h # xs @ p # zs @ [t])" using d by auto
    have dw: "set (dropWhile P zs) \<subseteq> set zs" by (auto dest: set_dropWhileD)
    have D: "\<forall>a\<in>set (b # zs). a \<notin> set (dropWhile P (b # zs)) \<longrightarrow> nodes S' a = None"
      using True S'(3,5) S1(3) bn by auto
    have V: "\<forall>a. a \<in> set (dropWhile P (b # zs)) \<or> a \<notin> set (b # zs) \<longrightarrow> vl S' a = vl S a"
      using True S'(4) S1(5) bn dw by auto
    have F: "\<forall>a. a \<notin> set (h # xs @ p # (b # zs) @ [t]) \<longrightarrow> nodes S' a = nodes S a"
      using S'(5) S1(6) by auto
    show ?thesis
      using run S'(2,6,7) S1(4,7) D V F True by (intro exI[of _ S']) simp
  qed
qed

lemma unique_loop_ok:
  assumes "is_list S l h (xs @ zs) t" "\<forall>a\<in>set zs. vl S a = Some (f a)"
    and "R = (\<lambda>a b. \<not> ne (f a) (f b))"
  shows "\<exists>S'. unique_loop ne S l (Some t) (Some (hd (zs @ [t]))) = Some (Inr S') \<and>
              is_list S' l h (xs @ keep_firsts R zs) t \<and>
              (\<forall>a\<in>set zs. a \<notin> set (keep_firsts R zs) \<longrightarrow> nodes S' a = None) \<and>
              (\<forall>a. a \<in> set (keep_firsts R zs) \<or> a \<notin> set zs \<longrightarrow> vl S' a = vl S a) \<and>
              (\<forall>a. a \<notin> set (h # xs @ zs @ [t]) \<longrightarrow> nodes S' a = nodes S a) \<and>
              brk S' = brk S \<and> (\<forall>l'. l' \<noteq> l \<longrightarrow> objs S' l' = objs S l')"
  using assms
proof (induction R zs arbitrary: S xs rule: keep_firsts.induct)
  case (1 eq)
  then show ?case
    by (subst unique_loop.simps) simp
next
  case (2 eq x zs)
  let ?zs' = "dropWhile (eq x) zs"
  let ?k = "keep_firsts eq ?zs'"
  have il: "is_list S l h (xs @ x # zs) t" using "2.prems"(1) .
  note c = is_list_cell[OF il]
  note d = is_list_distinct[OF il]
  have vx: "vl S x = Some (f x)" and vz: "\<forall>a\<in>set zs. vl S a = Some (f a)"
    using "2.prems"(2) by simp_all
  have P: "eq x = (\<lambda>b. \<not> ne (f x) (f b))" using "2.prems"(3) by simp
  from unique_inner_ok[where f = f and ne = ne and P = "eq x", OF il vx vz P] obtain S1 where S1:
    "unique_inner ne S l (Some t) (Some x) (Some (hd (zs @ [t]))) =
                 Some (Inr (S1, Some (hd (?zs' @ [t]))))"
    "is_list S1 l h (xs @ x # ?zs') t"
    "\<forall>a\<in>set zs. a \<notin> set ?zs' \<longrightarrow> nodes S1 a = None"
    "\<forall>a. a \<in> set ?zs' \<or> a \<notin> set zs \<longrightarrow> vl S1 a = vl S a"
    "\<forall>a. a \<notin> set (h # xs @ x # zs @ [t]) \<longrightarrow> nodes S1 a = nodes S a"
    "brk S1 = brk S" "\<forall>l'. l' \<noteq> l \<longrightarrow> objs S1 l' = objs S l'"
    by blast
  have dw: "set ?zs' \<subseteq> set zs" by (auto dest: set_dropWhileD)
  have il1: "is_list S1 l h ((xs @ [x]) @ ?zs') t" using S1(2) by simp
  have v1: "\<forall>a\<in>set ?zs'. vl S1 a = Some (f a)"
    using S1(4) vz dw by auto
  from "2.IH"[OF il1 v1 "2.prems"(3)] obtain S' where S':
    "unique_loop ne S1 l (Some t) (Some (hd (?zs' @ [t]))) = Some (Inr S')"
    "is_list S' l h ((xs @ [x]) @ ?k) t"
    "\<forall>a\<in>set ?zs'. a \<notin> set ?k \<longrightarrow> nodes S' a = None"
    "\<forall>a. a \<in> set ?k \<or> a \<notin> set ?zs' \<longrightarrow> vl S' a = vl S1 a"
    "\<forall>a. a \<notin> set (h # (xs @ [x]) @ ?zs' @ [t]) \<longrightarrow> nodes S' a = nodes S1 a"
    "brk S' = brk S1" "\<forall>l'. l' \<noteq> l \<longrightarrow> objs S' l' = objs S1 l'"
    by blast
  have run: "unique_loop ne S l (Some t) (Some (hd ((x # zs) @ [t]))) = Some (Inr S')"
    using c(1,2,4) S1(1) S'(1) by (subst unique_loop.simps) simp
  have kz: "set ?k \<subseteq> set ?zs'" by (rule set_keep_firsts)
  have xn: "x \<notin> set zs" "x \<notin> set ?zs'" using d dw by auto
  have D: "\<forall>a\<in>set (x # zs). a \<notin> set (keep_firsts eq (x # zs)) \<longrightarrow> nodes S' a = None"
  proof (intro ballI impI)
    fix a assume a: "a \<in> set (x # zs)" "a \<notin> set (keep_firsts eq (x # zs))"
    then have az: "a \<in> set zs" "a \<noteq> x" "a \<notin> set ?k" by auto
    show "nodes S' a = None"
    proof (cases "a \<in> set ?zs'")
      case True
      then show ?thesis using S'(3) az(3) by blast
    next
      case False
      then have "nodes S1 a = None" using S1(3) az(1) by blast
      moreover have "a \<notin> set (h # (xs @ [x]) @ ?zs' @ [t])"
        using False az d by auto
      ultimately show ?thesis using S'(5) by simp
    qed
  qed
  have V: "\<forall>a. a \<in> set (keep_firsts eq (x # zs)) \<or> a \<notin> set (x # zs) \<longrightarrow> vl S' a = vl S a"
  proof (intro allI impI)
    fix a assume a: "a \<in> set (keep_firsts eq (x # zs)) \<or> a \<notin> set (x # zs)"
    then consider "a = x" | "a \<in> set ?k" | "a \<notin> set (x # zs)" by auto
    then show "vl S' a = vl S a"
    proof cases
      case 1
      then show ?thesis using S'(4) S1(4) xn by simp
    next
      case 2
      then have "a \<in> set ?zs'" using kz by blast
      then show ?thesis using 2 S'(4) S1(4) by simp
    next
      case 3
      then have "a \<notin> set ?zs'" "a \<notin> set zs" using dw by auto
      then show ?thesis using S'(4) S1(4) by simp
    qed
  qed
  have F: "\<forall>a. a \<notin> set (h # xs @ (x # zs) @ [t]) \<longrightarrow> nodes S' a = nodes S a"
  proof (intro allI impI)
    fix a assume a: "a \<notin> set (h # xs @ (x # zs) @ [t])"
    then have "a \<notin> set (h # (xs @ [x]) @ ?zs' @ [t])" using dw by auto
    then have "nodes S' a = nodes S1 a" using S'(5) by blast
    also have "\<dots> = nodes S a" using S1(5) a by simp
    finally show "nodes S' a = nodes S a" .
  qed
  show ?case
    using run S'(2,6,7) S1(6,7) D V F by (intro exI[of _ S']) simp
qed

lemma list_unique_ok:
  assumes il: "is_list S l h as t" and f: "\<forall>a\<in>set as. vl S a = Some (f a)"
    and R: "R = (\<lambda>a b. \<not> ne (f a) (f b))"
  shows "\<exists>S'. list_unique ne S l = Some (Inr S') \<and>
              is_list S' l h (keep_firsts R as) t \<and>
              (\<forall>a\<in>set as. a \<notin> set (keep_firsts R as) \<longrightarrow> nodes S' a = None) \<and>
              (\<forall>a. a \<in> set (keep_firsts R as) \<or> a \<notin> set as \<longrightarrow> vl S' a = vl S a) \<and>
              (\<forall>a. a \<notin> set (h # as @ [t]) \<longrightarrow> nodes S' a = nodes S a) \<and>
              brk S' = brk S \<and> (\<forall>l'. l' \<noteq> l \<longrightarrow> objs S' l' = objs S l') \<and>
              (length as \<le> 1 \<longrightarrow> S' = S)"
proof -
  from il obtain L where L: "objs S l = Some L" "head L = Some h" "tail L = Some t"
    "sz L = length as" "chain S h as t"
    by (rule is_listD)
  show ?thesis
  proof (cases "length as \<le> 1")
    case True
    then have "keep_firsts R as = as"
      by (cases as) auto
    then show ?thesis using True L(1,4) il by (simp add: list_unique_def)
  next
    case False
    have nh: "nxt S h = Some (hd (as @ [t]))" "alive S h"
      using chain_nxt_head[OF L(5)] chain_alive[OF L(5), of h] by simp_all
    from il have il': "is_list S l h ([] @ as) t" by simp
    from unique_loop_ok[where f = f and ne = ne and R = R, OF il' f R] obtain S' where S':
      "unique_loop ne S l (Some t) (Some (hd (as @ [t]))) = Some (Inr S')"
      "is_list S' l h ([] @ keep_firsts R as) t"
      "\<forall>a\<in>set as. a \<notin> set (keep_firsts R as) \<longrightarrow> nodes S' a = None"
      "\<forall>a. a \<in> set (keep_firsts R as) \<or> a \<notin> set as \<longrightarrow> vl S' a = vl S a"
      "\<forall>a. a \<notin> set (h # [] @ as @ [t]) \<longrightarrow> nodes S' a = nodes S a"
      "brk S' = brk S" "\<forall>l'. l' \<noteq> l \<longrightarrow> objs S' l' = objs S l'"
      by blast
    have "list_unique ne S l = Some (Inr S')"
      using L(1-4) False nh S'(1) by (simp add: list_unique_def)
    then show ?thesis using S'(2-7) False by (intro exI[of _ S']) simp
  qed
qed

lemma holds_the:
  assumes "holds S as vs"
  shows "\<forall>a\<in>set as. vl S a = Some (the (vl S a))" "vs = map (\<lambda>a. the (vl S a)) as"
proof -
  have m: "map (vl S) as = map Some vs" using assms by (simp add: holds_def)
  then have len: "length as = length vs" by (metis length_map)
  show "\<forall>a\<in>set as. vl S a = Some (the (vl S a))"
  proof
    fix a assume "a \<in> set as"
    then have "vl S a \<in> set (map Some vs)" using m by (metis image_eqI set_map)
    then show "vl S a = Some (the (vl S a))" by auto
  qed
  then have "map Some (map (\<lambda>a. the (vl S a)) as) = map (vl S) as"
    by (simp add: comp_def cong: map_cong)
  with m have "map Some (map (\<lambda>a. the (vl S a)) as) = map Some vs" by simp
  then show "vs = map (\<lambda>a. the (vl S a)) as"
    by (metis inj_Some inj_map_eq_map)
qed

text \<open>
  C7. On a list that satisfies the invariant, whatever \<^verbatim>\<open>operator!=\<close> of the value type
  is, \<^verbatim>\<open>unique\<close> returns; the test that it applies to two values is the negation of
  \<^verbatim>\<open>operator!=\<close>. Of each run of consecutive nodes whose values pass this test against
  the first node of the run, that first node stays linked, with its value, and the
  others are destroyed; the count is the number of nodes that stay; nodes outside the
  list are as they were. A list of at most one element leaves the store as it was. When
  \<^verbatim>\<open>operator!=\<close> is inequality of values, the values that stay are the values with
  adjacent duplicates removed.
\<close>

theorem unique_contract:
  assumes "is_list S l h as t" "holds S as vs"
  shows "\<exists>S'. list_unique ne S l = Some (Inr S') \<and>
           (let kept = keep_firsts (\<lambda>p q. \<not> ne (snd p) (snd q)) (zip as vs) in
              is_list S' l h (map fst kept) t \<and> holds S' (map fst kept) (map snd kept) \<and>
              map snd kept = keep_firsts (\<lambda>x y. \<not> ne x y) vs \<and>
              (ne = (\<noteq>) \<longrightarrow> map snd kept = remdups_adj vs) \<and>
              list_size S' l = Inr (length kept) \<and>
              (\<forall>a\<in>set as. a \<notin> set (map fst kept) \<longrightarrow> nodes S' a = None) \<and>
              (\<forall>a. a \<notin> set (h # as @ [t]) \<longrightarrow> nodes S' a = nodes S a)) \<and>
           (length as \<le> 1 \<longrightarrow> S' = S)"
proof -
  define f where "f = (\<lambda>a. the (vl S a))"
  define R where "R = (\<lambda>a b. \<not> ne (f a) (f b))"
  define g where "g = (\<lambda>a. (a, f a))"
  define K where "K = keep_firsts R as"
  have h: "\<forall>a\<in>set as. vl S a = Some (f a)" "vs = map f as"
    using holds_the[OF assms(2)] by (simp_all add: f_def)
  from list_unique_ok[where f = f and ne = ne and R = R, OF assms(1) h(1) R_def]
  obtain S' where S': "list_unique ne S l = Some (Inr S')"
    "is_list S' l h K t"
    "\<forall>a\<in>set as. a \<notin> set K \<longrightarrow> nodes S' a = None"
    "\<forall>a. a \<in> set K \<or> a \<notin> set as \<longrightarrow> vl S' a = vl S a"
    "\<forall>a. a \<notin> set (h # as @ [t]) \<longrightarrow> nodes S' a = nodes S a"
    "length as \<le> 1 \<longrightarrow> S' = S"
    unfolding K_def by blast
  have z: "zip as vs = map g as"
    unfolding h(2) g_def by (induction as) auto
  have kept: "keep_firsts (\<lambda>p q. \<not> ne (snd p) (snd q)) (zip as vs) = map g K"
    unfolding z K_def R_def by (simp add: keep_firsts_map g_def)
  have fst: "map fst (map g K) = K" and snd: "map snd (map g K) = map f K"
    by (simp_all add: g_def comp_def)
  have KS: "set K \<subseteq> set as" unfolding K_def by (rule set_keep_firsts)
  have ho: "holds S' K (map f K)"
    unfolding holds_def using S'(4) h(1) KS by (auto simp: subset_iff)
  have vs: "map f K = keep_firsts (\<lambda>x y. \<not> ne x y) vs"
    unfolding h(2) K_def R_def by (simp add: keep_firsts_map)
  have rd: "ne = (\<noteq>) \<longrightarrow> map f K = remdups_adj vs"
    using vs keep_firsts_eq[of vs] by auto
  from S'(2) obtain L' where "objs S' l = Some L'" "sz L' = length K" by (rule is_listD)
  then have size: "list_size S' l = Inr (length (map g K))"
    by (simp add: list_size_def)
  show ?thesis
    unfolding kept Let_def fst snd
    using S'(1,2,3,5,6) ho vs rd size by blast
qed

lemma is_list_store_11221: "is_list store_11221 0 0 [2, 3, 4, 5, 6] 1"
  by (simp add: store_11221_def is_list_def chain_def alive_def nxt_def prv_def vl_def)

lemma holds_store_11221: "holds store_11221 [2, 3, 4, 5, 6] [1, 1, 2, 2, 1]"
  by (simp add: holds_def store_11221_def vl_def)

theorem unique_contract_witness:
  "is_list store_11221 0 0 [2, 3, 4, 5, 6] 1 \<and> holds store_11221 [2, 3, 4, 5, 6] [1, 1, 2, 2, 1] \<and>
   (\<exists>S'. list_unique (\<noteq>) store_11221 0 = Some (Inr S') \<and>
          is_list S' 0 0 [2, 4, 6] 1 \<and> holds S' [2, 4, 6] [1, 2, 1] \<and>
          list_size S' 0 = Inr 3 \<and> nodes S' 3 = None \<and> nodes S' 5 = None)"
proof -
  have k: "keep_firsts (\<lambda>p q. \<not> snd p \<noteq> snd q) (zip [2, 3, 4, 5, 6 :: nat] [1, 1, 2, 2, 1 :: nat]) =
             [(2, 1), (4, 2), (6, 1)]"
    by simp
  from unique_contract [OF is_list_store_11221 holds_store_11221, of "(\<noteq>)"]
  have "\<exists>S'. list_unique (\<noteq>) store_11221 0 = Some (Inr S') \<and>
          is_list S' 0 0 [2, 4, 6] 1 \<and> holds S' [2, 4, 6] [1, 2, 1] \<and>
          list_size S' 0 = Inr 3 \<and> nodes S' 3 = None \<and> nodes S' 5 = None"
    unfolding k Let_def by auto
  then show ?thesis using is_list_store_11221 holds_store_11221 by blast
qed

section \<open>Moving nodes between two lists\<close>

section \<open>merge\<close>

lemma fpath_cong: "(\<forall>a\<in>set cs. f a = g a) \<Longrightarrow> fpath f cs = fpath g cs"
  by (induction f cs rule: fpath.induct) auto

lemma bpath_cong: "(\<forall>a\<in>set cs. f a = g a) \<Longrightarrow> bpath f cs = bpath g cs"
  by (induction f cs rule: bpath.induct) auto

lemma fpath_append:
  "xs \<noteq> [] \<Longrightarrow> ys \<noteq> [] \<Longrightarrow>
     fpath f (xs @ ys) = (fpath f xs \<and> f (last xs) = Some (hd ys) \<and> fpath f ys)"
proof (induction xs)
  case Nil
  then show ?case by simp
next
  case (Cons x xs)
  note IH = Cons.IH and prems = Cons.prems
  show ?case
  proof (cases xs)
    case Nil
    then show ?thesis using prems by (cases ys) auto
  next
    case (Cons y zs)
    then show ?thesis using IH prems by auto
  qed
qed

lemma bpath_append:
  "xs \<noteq> [] \<Longrightarrow> ys \<noteq> [] \<Longrightarrow>
     bpath g (xs @ ys) = (bpath g xs \<and> g (hd ys) = Some (last xs) \<and> bpath g ys)"
proof (induction xs)
  case Nil
  then show ?case by simp
next
  case (Cons x xs)
  note IH = Cons.IH and prems = Cons.prems
  show ?case
  proof (cases xs)
    case Nil
    then show ?thesis using prems by (cases ys) auto
  next
    case (Cons y zs)
    then show ?thesis using IH prems by auto
  qed
qed

lemma chain_frame:
  assumes "chain S h as t" "\<forall>a\<in>set (h # as @ [t]). nodes S' a = nodes S a" "brk S \<le> brk S'"
  shows "chain S' h as t"
proof -
  have v: "\<forall>a\<in>set (h # as @ [t]). alive S' a = alive S a \<and> nxt S' a = nxt S a \<and> prv S' a = prv S a"
    using assms(2) same_node[of S' _ S] by blast
  have n: "\<forall>a\<in>set (h # as @ [t]). nxt S' a = nxt S a" using v by blast
  have p: "\<forall>a\<in>set (h # as @ [t]). prv S' a = prv S a" using v by blast
  have f: "fpath (nxt S') (h # as @ [t]) = fpath (nxt S) (h # as @ [t])"
    using n by (rule fpath_cong)
  have b: "bpath (prv S') (h # as @ [t]) = bpath (prv S) (h # as @ [t])"
    using p by (rule bpath_cong)
  have "list_all (\<lambda>a. alive S a \<and> a < brk S) (h # as @ [t])"
    using assms(1) by (simp add: chain_def)
  then have a: "list_all (\<lambda>a. alive S' a \<and> a < brk S') (h # as @ [t])"
    unfolding list_all_iff using v assms(3) by (meson less_le_trans)
  have e: "prv S' h = None" "nxt S' t = None"
    using assms(1) v by (simp_all add: chain_def)
  have d: "distinct (h # as @ [t])" using assms(1) by (simp add: chain_def)
  have "fpath (nxt S) (h # as @ [t])" "bpath (prv S) (h # as @ [t])"
    using assms(1) by (simp_all add: chain_def)
  then show ?thesis
    unfolding chain_def using f b a e d by blast
qed

lemma is_list_frame:
  assumes "is_list S l h as t" "\<forall>a\<in>set (h # as @ [t]). nodes S' a = nodes S a"
    "brk S \<le> brk S'" "objs S' l = objs S l"
  shows "is_list S' l h as t"
proof -
  from assms(1) obtain L where L: "objs S l = Some L" "head L = Some h" "tail L = Some t"
    "sz L = length as" "chain S h as t" "vl S h = None" "vl S t = None"
    "list_all (\<lambda>a. vl S a \<noteq> None) as"
    by (rule is_listD)
  have v: "\<forall>a\<in>set (h # as @ [t]). vl S' a = vl S a"
    using assms(2) same_node[of S' _ S] by blast
  have "list_all (\<lambda>a. vl S' a \<noteq> None) as"
    using L(8) v by (simp add: list_all_iff)
  then show ?thesis
    using chain_frame[OF L(5) assms(2,3)] L(1-4,6,7) v assms(4) by (simp add: is_list_def)
qed

text \<open>Linking a live node in, and taking a node out, seen on the views alone.\<close>

lemma chain_link:
  assumes c: "chain S h (xs @ zs) t" and nd: "nd \<notin> set (h # xs @ zs @ [t])" "alive S nd" "nd < brk S"
    and v: "alive S' = alive S" "brk S' = brk S"
      "nxt S' = (nxt S)(nd := Some (hd (zs @ [t])), last (h # xs) := Some nd)"
      "prv S' = (prv S)(nd := Some (last (h # xs)), hd (zs @ [t]) := Some nd)"
  shows "chain S' h (xs @ nd # zs) t"
proof -
  obtain ys q where q: "h # xs = ys @ [q]" using snoc_split[of h xs] by blast
  obtain p ws where p: "zs @ [t] = p # ws" "p = hd (zs @ [t])" using hd_split[of zs t] by blast
  have lq: "last (h # xs) = q" using q by (metis last_snoc)
  have cells: "h # (xs @ zs) @ [t] = ys @ q # p # ws" using q p by simp
  have cells': "h # (xs @ nd # zs) @ [t] = ys @ q # nd # p # ws" using q p by simp
  from c have d: "distinct (ys @ q # p # ws)"
    and al: "list_all (\<lambda>a. alive S a \<and> a < brk S) (ys @ q # p # ws)"
    and fp: "fpath (nxt S) (ys @ q # p # ws)" and bp: "bpath (prv S) (ys @ q # p # ws)"
    and ph: "prv S h = None" and nt: "nxt S t = None"
    unfolding chain_def cells by auto
  have "set (h # xs @ zs @ [t]) = set (ys @ q # p # ws)"
    using arg_cong[OF cells, of set] by simp
  then have fresh: "nd \<notin> set (ys @ q # p # ws)" using nd(1) by blast
  have hq: "h \<in> set (ys @ [q])" "h \<noteq> p" "t \<in> set (p # ws)" "t \<noteq> q"
    using q p(1) d by (auto simp: Cons_eq_append_conv append_eq_Cons_conv)
  have v': "nxt S' = (nxt S)(nd := Some p, q := Some nd)"
    "prv S' = (prv S)(nd := Some q, p := Some nd)"
    using v(3,4) unfolding lq p(2)[symmetric] by simp_all
  show ?thesis
    unfolding chain_def cells'
    using d al fp bp ph nt fresh hq nd(2,3) v(1,2) v'
    by (auto simp: list_all_iff)
qed

lemma chain_unlink:
  assumes c: "chain S h (xs @ p # zs) t"
    and v: "alive S' = alive S" "brk S' = brk S"
      "nxt S' = (nxt S)(last (h # xs) := Some (hd (zs @ [t])))"
      "prv S' = (prv S)(hd (zs @ [t]) := Some (last (h # xs)))"
  shows "chain S' h (xs @ zs) t"
proof -
  obtain ys q where q: "h # xs = ys @ [q]" using snoc_split[of h xs] by blast
  obtain r ws where r: "zs @ [t] = r # ws" "r = hd (zs @ [t])" using hd_split[of zs t] by blast
  have lq: "last (h # xs) = q" using q by (metis last_snoc)
  have cells: "h # (xs @ p # zs) @ [t] = ys @ q # p # r # ws" using q r by simp
  have cells': "h # (xs @ zs) @ [t] = ys @ q # r # ws" using q r by simp
  from c have d: "distinct (ys @ q # p # r # ws)"
    and al: "list_all (\<lambda>a. alive S a \<and> a < brk S) (ys @ q # p # r # ws)"
    and fp: "fpath (nxt S) (ys @ q # p # r # ws)" and bp: "bpath (prv S) (ys @ q # p # r # ws)"
    and ph: "prv S h = None" and nt: "nxt S t = None"
    unfolding chain_def cells by auto
  have hq: "h \<in> set (ys @ [q])" "h \<noteq> r" "h \<noteq> p" "t \<in> set (r # ws)" "t \<noteq> q" "t \<noteq> p"
    using q r(1) d by (auto simp: Cons_eq_append_conv append_eq_Cons_conv)
  have v': "nxt S' = (nxt S)(q := Some r)" "prv S' = (prv S)(r := Some q)"
    using v(3,4) unfolding lq r(2)[symmetric] by simp_all
  show ?thesis
    unfolding chain_def cells'
    using d al fp bp ph nt hq v(1,2) v'
    by (auto simp: list_all_iff)
qed

lemma is_listI:
  assumes "objs S l = Some L" "head L = Some h" "tail L = Some t" "sz L = length as"
    "chain S h as t" "vl S h = None" "vl S t = None" "list_all (\<lambda>a. vl S a \<noteq> None) as"
  shows "is_list S l h as t"
  using assms by (simp add: is_list_def)

lemma chain_cells_alive:
  assumes "chain S h as t"
  shows "\<forall>a\<in>set (h # as @ [t]). alive S a \<and> a < brk S"
  using assms by (simp add: chain_def list_all_iff)

lemma merge_step_advance:
  assumes A: "is_list S l h (xs @ a # as) t" and B: "is_list S l' h' (b # bs) t'"
    and v: "vl S a = Some va" "vl S b = Some vb" "\<not> vb < va"
  shows "merge_step S l l' (Some a) (Some b) = Inr (S, Some (hd (as @ [t])), Some b)"
proof -
  note ca = is_list_cell[OF A]
  from B have "is_list S l' h' ([] @ b # bs) t'" by simp
  note cb = is_list_cell[OF this]
  show ?thesis using ca(1,4) cb(1) v by (simp add: merge_step_def)
qed

lemma merge_step_splice:
  assumes A: "is_list S l h (xs @ a # as) t" and B: "is_list S l' h' (b # bs) t'"
    and ll: "l \<noteq> l'" and disj: "set (h # xs @ a # as @ [t]) \<inter> set (h' # b # bs @ [t']) = {}"
    and v: "vl S a = Some va" "vl S b = Some vb" "vb < va"
  shows "\<exists>S'. merge_step S l l' (Some a) (Some b) = Inr (S', Some a, Some (hd (bs @ [t']))) \<and>
              is_list S' l h (xs @ b # a # as) t \<and> is_list S' l' h' bs t' \<and>
              vl S' = vl S \<and> alive S' = alive S \<and> brk S' = brk S \<and>
              (\<forall>c. c \<notin> set (h # xs @ a # as @ [t]) \<union> set (h' # b # bs @ [t']) \<longrightarrow>
                   nodes S' c = nodes S c) \<and>
              (\<forall>k. k \<noteq> l \<and> k \<noteq> l' \<longrightarrow> objs S' k = objs S k)"
proof -
  from A obtain L where L: "objs S l = Some L" "head L = Some h" "tail L = Some t"
    "sz L = length (xs @ a # as)" "chain S h (xs @ a # as) t" "vl S h = None" "vl S t = None"
    "list_all (\<lambda>a. vl S a \<noteq> None) (xs @ a # as)"
    by (rule is_listD)
  from B obtain L' where L': "objs S l' = Some L'" "head L' = Some h'" "tail L' = Some t'"
    "sz L' = length (b # bs)" "chain S h' (b # bs) t'" "vl S h' = None" "vl S t' = None"
    "list_all (\<lambda>a. vl S a \<noteq> None) (b # bs)"
    by (rule is_listD)
  define q where "q = last (h # xs)"
  define r where "r = hd (bs @ [t'])"
  note ca = is_list_cell[OF A, folded q_def]
  from B have B0: "is_list S l' h' ([] @ b # bs) t'" by simp
  note cb = is_list_cell[OF B0, folded r_def]
  have pb: "prv S b = Some h'" using cb(5) by simp
  note alA = chain_cells_alive[OF L(5)] and alB = chain_cells_alive[OF L'(5)]
  note dA = chain_distinct[OF L(5)] and dB = chain_distinct[OF L'(5)]
  have qA: "q \<in> set (h # xs @ a # as @ [t])"
    unfolding q_def using last_in_set[of "h # xs"] by auto
  have qa: "q \<noteq> a"
  proof
    assume "q = a"
    then have "a \<in> set (h # xs)" unfolding q_def using last_in_set[of "h # xs"] by auto
    then show False using dA by auto
  qed
  have rB: "r \<in> set (bs @ [t'])"
    unfolding r_def using hd_in_set[of "bs @ [t']"] by simp
  then have rB': "r \<in> set (h' # b # bs @ [t'])" by simp
  have rb: "r \<noteq> b" "r \<noteq> h'" "h' \<noteq> b"
    using rB dB by auto
  define CA where "CA = set (h # xs @ a # as @ [t])"
  define CB where "CB = set (h' # b # bs @ [t'])"
  have mem: "a \<in> CA" "q \<in> CA" "b \<in> CB" "h' \<in> CB" "r \<in> CB"
    using qA rB' by (simp_all add: CA_def CB_def)
  have dj: "CA \<inter> CB = {}" using disj by (simp add: CA_def CB_def)
  have alA': "\<forall>c\<in>CA. alive S c \<and> c < brk S" using alA by (simp add: CA_def)
  have alB': "\<forall>c\<in>CB. alive S c \<and> c < brk S" using alB by (simp add: CB_def)
  have aA: "a \<in> set (h # xs @ a # as @ [t])" by simp
  have bB: "b \<in> set (h' # b # bs @ [t'])" "h' \<in> set (h' # b # bs @ [t'])" by simp_all
  have ne: "b \<noteq> a" "b \<noteq> q" "r \<noteq> a" "r \<noteq> q" "h' \<noteq> a" "h' \<noteq> q"
    using dj mem by blast+
  have live: "alive S a" "alive S b" "alive S q" "alive S r" "alive S h'" "b < brk S"
    using alA' alB' mem by blast+
  have "\<exists>S1. unlink S (Some b) = Inr S1 \<and> alive S1 = alive S \<and>
           nxt S1 = (nxt S)(h' := Some r) \<and> prv S1 = (prv S)(r := Some h') \<and>
           vl S1 = vl S \<and> objs S1 = objs S \<and> brk S1 = brk S"
    using live(2,4,5) pb cb(4) rb by (intro unlink_views) simp_all
  then obtain S1 where S1: "unlink S (Some b) = Inr S1" "alive S1 = alive S"
    "nxt S1 = (nxt S)(h' := Some r)" "prv S1 = (prv S)(r := Some h')"
    "vl S1 = vl S" "objs S1 = objs S" "brk S1 = brk S"
    by blast
  have pa1: "prv S1 a = Some q" using S1(4) ca(5) ne by simp
  have "\<exists>S2. link_before S1 (Some a) (Some b) = Inr S2 \<and> alive S2 = alive S1 \<and>
           nxt S2 = (nxt S1)(b := Some a, q := Some b) \<and>
           prv S2 = (prv S1)(b := Some q, a := Some b) \<and>
           vl S2 = vl S1 \<and> objs S2 = objs S1 \<and> brk S2 = brk S1"
    using S1(2) pa1 live(1,2,3) ne(1,2) by (intro link_before_views) simp_all
  then obtain S2 where S2: "link_before S1 (Some a) (Some b) = Inr S2" "alive S2 = alive S1"
    "nxt S2 = (nxt S1)(b := Some a, q := Some b)"
    "prv S2 = (prv S1)(b := Some q, a := Some b)"
    "vl S2 = vl S1" "objs S2 = objs S1" "brk S2 = brk S1"
    by blast
  let ?S3 = "S2\<lparr>objs := (objs S2)(l \<mapsto> L\<lparr>sz := sz L + 1\<rparr>)\<rparr>"
  let ?S' = "?S3\<lparr>objs := (objs ?S3)(l' \<mapsto> L'\<lparr>sz := sz L' - 1\<rparr>)\<rparr>"
  have run: "merge_step S l l' (Some a) (Some b) = Inr (?S', Some a, Some r)"
    using live(1,2) cb(4) v S1(1,6) S2(1,6) L(1) L'(1,4) ll
    by (simp add: merge_step_def inc_sz_def dec_sz_def)
  \<comment> \<open>the list that receives the node\<close>
  have fA: "\<forall>c\<in>set (h # (xs @ a # as) @ [t]). nodes S1 c = nodes S c"
  proof
    fix c assume "c \<in> set (h # (xs @ a # as) @ [t])"
    then have "c \<in> CA" by (simp add: CA_def)
    then have "c \<noteq> h'" "c \<noteq> r" using dj mem by blast+
    then show "nodes S1 c = nodes S c" using S1(2-5) by (intro node_eqI) simp_all
  qed
  have cA1: "chain S1 h (xs @ a # as) t"
    using chain_frame[OF L(5) fA] S1(7) by simp
  have "b \<notin> CA" using dj mem by blast
  then have bA: "b \<notin> set (h # xs @ (a # as) @ [t])" by (simp add: CA_def)
  have bA': "alive S1 b" "b < brk S1" using live S1(2,7) by simp_all
  have n2: "nxt S2 = (nxt S1)(b := Some (hd ((a # as) @ [t])), last (h # xs) := Some b)"
    using S2(3) by (simp add: q_def)
  have p2: "prv S2 = (prv S1)(b := Some (last (h # xs)), hd ((a # as) @ [t]) := Some b)"
    using S2(4) by (simp add: q_def)
  have cA2: "chain S2 h (xs @ b # a # as) t"
    using chain_link[OF cA1 bA bA' S2(2,7) n2 p2] .
  have cA: "chain ?S' h (xs @ b # a # as) t"
    using cA2 by (simp add: chain_def)
  have vlb: "vl S b \<noteq> None" using v(2) by simp
  have vA: "vl ?S' h = None" "vl ?S' t = None" "list_all (\<lambda>a. vl ?S' a \<noteq> None) (xs @ b # a # as)"
    using L(6-8) vlb S1(5) S2(5) by simp_all
  have oA: "objs ?S' l = Some (L\<lparr>sz := sz L + 1\<rparr>)" using ll by simp
  have ilA: "is_list ?S' l h (xs @ b # a # as) t"
    using oA _ _ _ cA vA
    by (rule is_listI) (simp_all add: L(2-4))
  \<comment> \<open>the list that gives the node\<close>
  have n1: "nxt S1 = (nxt S)(last (h' # []) := Some (hd (bs @ [t'])))"
    using S1(3) by (simp add: r_def)
  have p1: "prv S1 = (prv S)(hd (bs @ [t']) := Some (last (h' # [])))"
    using S1(4) by (simp add: r_def)
  from L'(5) have cB0: "chain S h' ([] @ b # bs) t'" by simp
  have cB1: "chain S1 h' ([] @ bs) t'"
    using chain_unlink[OF cB0 S1(2,7) n1 p1] .
  have fB: "\<forall>c\<in>set (h' # bs @ [t']). nodes S2 c = nodes S1 c"
  proof
    fix c assume c: "c \<in> set (h' # bs @ [t'])"
    then have "c \<noteq> b" using dB by auto
    moreover have "c \<in> CB" using c by (auto simp: CB_def)
    then have "c \<noteq> a" "c \<noteq> q" using dj mem by blast+
    ultimately show "nodes S2 c = nodes S1 c" using S2(2-5) by (intro node_eqI) simp_all
  qed
  have cB1': "chain S1 h' bs t'" using cB1 by simp
  have cB2: "chain S2 h' bs t'"
    using chain_frame[OF cB1' fB] S2(7) by simp
  have cB: "chain ?S' h' bs t'"
    using cB2 by (simp add: chain_def)
  have vB: "vl ?S' h' = None" "vl ?S' t' = None" "list_all (\<lambda>a. vl ?S' a \<noteq> None) bs"
    using L'(6-8) S1(5) S2(5) by simp_all
  have oB: "objs ?S' l' = Some (L'\<lparr>sz := sz L' - 1\<rparr>)" by simp
  have ilB: "is_list ?S' l' h' bs t'"
    using oB _ _ _ cB vB
    by (rule is_listI) (simp_all add: L'(2-4))
  have frame: "\<forall>c. c \<notin> set (h # xs @ a # as @ [t]) \<union> set (h' # b # bs @ [t']) \<longrightarrow>
                   nodes ?S' c = nodes S c"
  proof (intro allI impI)
    fix c assume "c \<notin> set (h # xs @ a # as @ [t]) \<union> set (h' # b # bs @ [t'])"
    then have "c \<notin> CA" "c \<notin> CB" by (simp_all add: CA_def CB_def)
    then have "c \<noteq> h'" "c \<noteq> r" "c \<noteq> b" "c \<noteq> a" "c \<noteq> q"
      using mem by blast+
    then show "nodes ?S' c = nodes S c"
      using S1(2-5) S2(2-5) by (intro node_eqI) simp_all
  qed
  have views: "vl ?S' = vl S" "alive ?S' = alive S" "brk ?S' = brk S"
    using S1(2,5,7) S2(2,5,7) by simp_all
  have others: "\<forall>k. k \<noteq> l \<and> k \<noteq> l' \<longrightarrow> objs ?S' k = objs S k"
    using S1(6) S2(6) by simp
  show ?thesis
    using run ilA ilB frame views others
    unfolding r_def by (intro exI[of _ ?S']) blast
qed

section \<open>Merging two sequences\<close>

lemma merge_run_stable: "fst (merge_run f as bs) @ snd (merge_run f as bs) = stable_merge f as bs"
  by (induction f as bs rule: merge_run.induct) (auto split: prod.splits)

lemma stable_merge_Nil2 [simp]: "stable_merge f as [] = as"
  by (cases as) simp_all

lemma mset_stable_merge: "mset (stable_merge f as bs) = mset as + mset bs"
  by (induction f as bs rule: stable_merge.induct) simp_all

lemma set_stable_merge: "set (stable_merge f as bs) = set as \<union> set bs"
  by (induction f as bs rule: stable_merge.induct) auto

lemma set_merge_run_snd: "set (snd (merge_run f as bs)) \<subseteq> set bs"
  by (induction f as bs rule: merge_run.induct) (auto simp: case_prod_beta)

lemma stable_merge_map_aux:
  "f' = (\<lambda>a. f (g a)) \<Longrightarrow> stable_merge f (map g as) (map g bs) = map g (stable_merge f' as bs)"
  by (induction f' as bs rule: stable_merge.induct) simp_all

lemma stable_merge_map:
  "stable_merge f (map g as) (map g bs) = map g (stable_merge (\<lambda>a. f (g a)) as bs)"
  by (rule stable_merge_map_aux) simp

lemma sorted_stable_merge:
  fixes f :: "'b \<Rightarrow> 'a::linorder"
  shows "sorted (map f as) \<Longrightarrow> sorted (map f bs) \<Longrightarrow> sorted (map f (stable_merge f as bs))"
  by (induction f as bs rule: stable_merge.induct) (auto simp: set_stable_merge)

lemma stable_merge_ties:
  fixes f :: "'b \<Rightarrow> 'a::linorder"
  assumes "sorted (map f as)" "distinct as" "set as \<inter> set bs = {}"
    "stable_merge f as bs = us @ vs" "y \<in> set us" "y \<in> set bs" "x \<in> set vs" "x \<in> set as"
  shows "f y < f x"
  using assms
proof (induction f as bs arbitrary: us vs rule: stable_merge.induct)
  case (1 f bs)
  then show ?case by simp
next
  case (2 f a as)
  then show ?case by simp
next
  case (3 f a as b bs)
  show ?case
  proof (cases "f b < f a")
    case True
    with "3.prems"(4,5) obtain us' where us: "us = b # us'"
      "stable_merge f (a # as) bs = us' @ vs"
      by (cases us) auto
    have ax: "f a \<le> f x" using "3.prems"(1,8) by auto
    show ?thesis
    proof (cases "y = b")
      case True
      then show ?thesis using \<open>f b < f a\<close> ax by simp
    next
      case False
      then have "y \<in> set us'" "y \<in> set bs" using "3.prems"(5,6) us(1) by auto
      moreover have "set (a # as) \<inter> set bs = {}" using "3.prems"(3) by auto
      ultimately show ?thesis
        using "3.IH"(1)[OF True "3.prems"(1,2) _ us(2) _ _ "3.prems"(7,8)] by blast
    qed
  next
    case False
    with "3.prems"(4,5) obtain us' where us: "us = a # us'"
      "stable_merge f as (b # bs) = us' @ vs"
      by (cases us) auto
    have "a \<notin> set (b # bs)" using "3.prems"(3) by auto
    then have y: "y \<in> set us'" using "3.prems"(5,6) us(1) by auto
    have "x \<in> set (stable_merge f as (b # bs))" using us(2) "3.prems"(7) by simp
    then have "x \<in> set as \<union> set (b # bs)" by (simp add: set_stable_merge)
    moreover have "a \<notin> set as" using "3.prems"(2) by simp
    ultimately have x: "x \<in> set as" using "3.prems"(3,8) by auto
    have s: "sorted (map f as)" "distinct as" "set as \<inter> set (b # bs) = {}"
      using "3.prems"(1,2,3) by auto
    show ?thesis
      using "3.IH"(2)[OF False s us(2) y "3.prems"(6,7) x] .
  qed
qed

section \<open>merge\<close>

lemma merge_loop_ok:
  assumes "is_list S l h (xs @ as) t" "is_list S l' h' bs t'" "l \<noteq> l'"
    "set (h # xs @ as @ [t]) \<inter> set (h' # bs @ [t']) = {}"
    "\<forall>c\<in>set as \<union> set bs. vl S c = Some (f c)"
  shows "\<exists>S'. merge_loop S l l' (Some t) (Some t') (Some (hd (as @ [t]))) (Some (hd (bs @ [t']))) =
                 Some (Inr (S', Some (hd (snd (merge_run f as bs) @ [t'])))) \<and>
              is_list S' l h (xs @ fst (merge_run f as bs)) t \<and>
              is_list S' l' h' (snd (merge_run f as bs)) t' \<and>
              vl S' = vl S \<and> alive S' = alive S \<and> brk S' = brk S \<and>
              (\<forall>c. c \<notin> set (h # xs @ as @ [t]) \<union> set (h' # bs @ [t']) \<longrightarrow>
                   nodes S' c = nodes S c) \<and>
              (\<forall>k. k \<noteq> l \<and> k \<noteq> l' \<longrightarrow> objs S' k = objs S k)"
  using assms
proof (induction f as bs arbitrary: S xs rule: merge_run.induct)
  case (1 f bs)
  then show ?case
    by (subst merge_loop.simps) simp
next
  case (2 f a as)
  then show ?case
    by (subst merge_loop.simps) simp
next
  case (3 f a as b bs)
  note A = "3.prems"(1) and B = "3.prems"(2) and ll = "3.prems"(3) and disj = "3.prems"(4)
  have va: "vl S a = Some (f a)" and vb: "vl S b = Some (f b)"
    using "3.prems"(5) by simp_all
  note ca = is_list_cell[OF A]
  from B have B0: "is_list S l' h' ([] @ b # bs) t'" by simp
  note cb = is_list_cell[OF B0]
  have cond: "Some (hd ((a # as) @ [t])) \<noteq> Some t \<and> Some (hd ((b # bs) @ [t'])) \<noteq> Some t'"
    using ca(2) cb(2) by simp
  define CA where "CA = set (h # xs @ (a # as) @ [t])"
  define CB where "CB = set (h' # (b # bs) @ [t'])"
  have dj: "CA \<inter> CB = {}" using disj by (simp add: CA_def CB_def)
  show ?case
  proof (cases "f b < f a")
    case True
    have disj': "set (h # xs @ a # as @ [t]) \<inter> set (h' # b # bs @ [t']) = {}"
      using disj by simp
    from merge_step_splice[OF A B ll disj' va vb True] obtain S1 where S1:
      "merge_step S l l' (Some a) (Some b) = Inr (S1, Some a, Some (hd (bs @ [t'])))"
      "is_list S1 l h (xs @ b # a # as) t" "is_list S1 l' h' bs t'"
      "vl S1 = vl S" "alive S1 = alive S" "brk S1 = brk S"
      "\<forall>c. c \<notin> set (h # xs @ a # as @ [t]) \<union> set (h' # b # bs @ [t']) \<longrightarrow> nodes S1 c = nodes S c"
      "\<forall>k. k \<noteq> l \<and> k \<noteq> l' \<longrightarrow> objs S1 k = objs S k"
      by blast
    have A1: "is_list S1 l h ((xs @ [b]) @ a # as) t" using S1(2) by simp
    define CA1 where "CA1 = set (h # (xs @ [b]) @ (a # as) @ [t])"
    define CB1 where "CB1 = set (h' # bs @ [t'])"
    have "b \<notin> CB1" using is_list_distinct[OF B] by (auto simp: CB1_def)
    moreover have "CA1 = insert b CA" "CB = insert b CB1"
      by (auto simp: CA1_def CA_def CB1_def CB_def)
    ultimately have dj1: "CA1 \<inter> CB1 = {}" "CA1 \<union> CB1 = CA \<union> CB" using dj by blast+
    have disj1: "set (h # (xs @ [b]) @ (a # as) @ [t]) \<inter> set (h' # bs @ [t']) = {}"
      using dj1(1) by (simp add: CA1_def CB1_def)
    have v1: "\<forall>c\<in>set (a # as) \<union> set bs. vl S1 c = Some (f c)"
      using "3.prems"(5) S1(4) by simp
    from "3.IH"(1)[OF True A1 S1(3) ll disj1 v1] obtain S' where S':
      "merge_loop S1 l l' (Some t) (Some t') (Some (hd ((a # as) @ [t]))) (Some (hd (bs @ [t']))) =
                 Some (Inr (S', Some (hd (snd (merge_run f (a # as) bs) @ [t']))))"
      "is_list S' l h ((xs @ [b]) @ fst (merge_run f (a # as) bs)) t"
      "is_list S' l' h' (snd (merge_run f (a # as) bs)) t'"
      "vl S' = vl S1" "alive S' = alive S1" "brk S' = brk S1"
      "\<forall>c. c \<notin> set (h # (xs @ [b]) @ (a # as) @ [t]) \<union> set (h' # bs @ [t']) \<longrightarrow>
                   nodes S' c = nodes S1 c"
      "\<forall>k. k \<noteq> l \<and> k \<noteq> l' \<longrightarrow> objs S' k = objs S1 k"
      by blast
    have run: "merge_loop S l l' (Some t) (Some t') (Some (hd ((a # as) @ [t])))
                 (Some (hd ((b # bs) @ [t']))) =
                 Some (Inr (S', Some (hd (snd (merge_run f (a # as) (b # bs)) @ [t']))))"
      using cond S1(1) S'(1) True
      by (subst merge_loop.simps) (simp add: case_prod_beta)
    have frame: "\<forall>c. c \<notin> set (h # xs @ (a # as) @ [t]) \<union> set (h' # (b # bs) @ [t']) \<longrightarrow>
                   nodes S' c = nodes S c"
    proof (intro allI impI)
      fix c assume "c \<notin> set (h # xs @ (a # as) @ [t]) \<union> set (h' # (b # bs) @ [t'])"
      then have c: "c \<notin> CA \<union> CB" by (simp add: CA_def CB_def)
      then have "c \<notin> CA1 \<union> CB1" using dj1(2) by simp
      then have "nodes S' c = nodes S1 c" using S'(7) by (simp add: CA1_def CB1_def)
      moreover have "nodes S1 c = nodes S c" using S1(7) c by (simp add: CA_def CB_def)
      ultimately show "nodes S' c = nodes S c" by simp
    qed
    have il: "is_list S' l h (xs @ fst (merge_run f (a # as) (b # bs))) t"
      "is_list S' l' h' (snd (merge_run f (a # as) (b # bs))) t'"
      using S'(2,3) True by (simp_all add: case_prod_beta)
    show ?thesis
      using run il frame S'(4,5,6,8) S1(4,5,6,8) by (intro exI[of _ S']) simp
  next
    case False
    have step: "merge_step S l l' (Some a) (Some b) = Inr (S, Some (hd (as @ [t])), Some b)"
      using merge_step_advance[OF A B va vb False] .
    have A1: "is_list S l h ((xs @ [a]) @ as) t" using A by simp
    have disj1: "set (h # (xs @ [a]) @ as @ [t]) \<inter> set (h' # (b # bs) @ [t']) = {}"
      using disj by simp
    have v1: "\<forall>c\<in>set as \<union> set (b # bs). vl S c = Some (f c)"
      using "3.prems"(5) by simp
    from "3.IH"(2)[OF False A1 B ll disj1 v1] obtain S' where S':
      "merge_loop S l l' (Some t) (Some t') (Some (hd (as @ [t]))) (Some (hd ((b # bs) @ [t']))) =
                 Some (Inr (S', Some (hd (snd (merge_run f as (b # bs)) @ [t']))))"
      "is_list S' l h ((xs @ [a]) @ fst (merge_run f as (b # bs))) t"
      "is_list S' l' h' (snd (merge_run f as (b # bs))) t'"
      "vl S' = vl S" "alive S' = alive S" "brk S' = brk S"
      "\<forall>c. c \<notin> set (h # (xs @ [a]) @ as @ [t]) \<union> set (h' # (b # bs) @ [t']) \<longrightarrow>
                   nodes S' c = nodes S c"
      "\<forall>k. k \<noteq> l \<and> k \<noteq> l' \<longrightarrow> objs S' k = objs S k"
      by blast
    have run: "merge_loop S l l' (Some t) (Some t') (Some (hd ((a # as) @ [t])))
                 (Some (hd ((b # bs) @ [t']))) =
                 Some (Inr (S', Some (hd (snd (merge_run f (a # as) (b # bs)) @ [t']))))"
      using cond step S'(1) False
      by (subst merge_loop.simps) (simp add: case_prod_beta)
    have il: "is_list S' l h (xs @ fst (merge_run f (a # as) (b # bs))) t"
      "is_list S' l' h' (snd (merge_run f (a # as) (b # bs))) t'"
      using S'(2,3) False by (simp_all add: case_prod_beta)
    have frame: "\<forall>c. c \<notin> set (h # xs @ (a # as) @ [t]) \<union> set (h' # (b # bs) @ [t']) \<longrightarrow>
                   nodes S' c = nodes S c"
      using S'(7) by simp
    show ?thesis
      using run il frame S'(4,5,6,8) by (intro exI[of _ S']) simp
  qed
qed

lemma fpath_upd_butlast: "a \<notin> set (butlast cs) \<Longrightarrow> fpath (f(a := v)) cs = fpath f cs"
  by (induction f cs rule: fpath.induct) auto

lemma bpath_upd_tl: "a \<notin> set (tl cs) \<Longrightarrow> bpath (g(a := v)) cs = bpath g cs"
  by (induction g cs rule: bpath.induct) auto

lemma count_loop_ok:
  assumes "distinct (c # cs)" "list_all (alive S) (c # cs)" "fpath (nxt S) (c # cs)"
  shows "count_loop S (Some c) (Some (last (c # cs))) m = Some (Inr (m + length (c # cs)))"
  using assms
proof (induction cs arbitrary: c m)
  case Nil
  then show ?case by (subst count_loop.simps) simp
next
  case (Cons d cs)
  have ne: "c \<noteq> last (d # cs)"
    using Cons.prems(1) last_in_set[of "d # cs"] by auto
  have "count_loop S (Some d) (Some (last (d # cs))) (Suc m) =
          Some (Inr (Suc m + length (d # cs)))"
    using Cons.prems by (intro Cons.IH) auto
  then show ?case
    using Cons.prems ne by (subst count_loop.simps) simp
qed

lemma chain_parts:
  assumes "chain S h as t"
  shows "fpath (nxt S) (h # as)" "bpath (prv S) (h # as)" "fpath (nxt S) as" "bpath (prv S) as"
    "nxt S (last (h # as)) = Some t" "prv S t = Some (last (h # as))"
    "prv S h = None" "nxt S t = None"
proof -
  have f: "fpath (nxt S) ((h # as) @ [t])" and b: "bpath (prv S) ((h # as) @ [t])"
    using assms by (simp_all add: chain_def)
  show "fpath (nxt S) (h # as)" "bpath (prv S) (h # as)"
    using fpath_appendD[OF f] bpath_appendD[OF b] by simp_all
  then show "fpath (nxt S) as" "bpath (prv S) as"
    by (auto dest: fpath_tl bpath_tl)
  show "nxt S (last (h # as)) = Some t"
    using f fpath_append[of "h # as" "[t]" "nxt S"] by simp
  show "prv S t = Some (last (h # as))"
    using b bpath_append[of "h # as" "[t]" "prv S"] by simp
  show "prv S h = None" "nxt S t = None"
    using assms by (simp_all add: chain_def)
qed

lemma chainI:
  assumes "distinct (h # as @ [t])" "\<forall>a\<in>set (h # as @ [t]). alive S a \<and> a < brk S"
    "fpath (nxt S) (h # as)" "bpath (prv S) (h # as)"
    "nxt S (last (h # as)) = Some t" "prv S t = Some (last (h # as))"
    "prv S h = None" "nxt S t = None"
  shows "chain S h as t"
proof -
  have "fpath (nxt S) ((h # as) @ [t])"
    using assms(3,5) fpath_append[of "h # as" "[t]" "nxt S"] by simp
  moreover have "bpath (prv S) ((h # as) @ [t])"
    using assms(4,6) bpath_append[of "h # as" "[t]" "prv S"] by simp
  ultimately show ?thesis
    using assms(1,2,7,8) by (simp add: chain_def list_all_iff)
qed

lemma merge_rest_ok:
  assumes A: "is_list S l h as t" and B: "is_list S l' h' (b # bs) t'"
    and ll: "l \<noteq> l'" and disj: "set (h # as @ [t]) \<inter> set (h' # (b # bs) @ [t']) = {}"
    and rec: "tail La = Some t" "head Lb = Some h'" "tail Lb = Some t'"
  shows "\<exists>S'. merge_rest S l l' La Lb (Some b) = Some (Inr S') \<and>
              is_list S' l h (as @ b # bs) t \<and> is_list S' l' h' [] t' \<and>
              vl S' = vl S \<and> alive S' = alive S \<and> brk S' = brk S \<and>
              (\<forall>c. c \<notin> set (h # as @ [t]) \<union> set (h' # (b # bs) @ [t']) \<longrightarrow>
                   nodes S' c = nodes S c) \<and>
              (\<forall>k. k \<noteq> l \<and> k \<noteq> l' \<longrightarrow> objs S' k = objs S k)"
proof -
  from A obtain L where L: "objs S l = Some L" "head L = Some h" "tail L = Some t"
    "sz L = length as" "chain S h as t" "vl S h = None" "vl S t = None"
    "list_all (\<lambda>a. vl S a \<noteq> None) as"
    by (rule is_listD)
  from B obtain L' where L': "objs S l' = Some L'" "head L' = Some h'" "tail L' = Some t'"
    "sz L' = length (b # bs)" "chain S h' (b # bs) t'" "vl S h' = None" "vl S t' = None"
    "list_all (\<lambda>a. vl S a \<noteq> None) (b # bs)"
    by (rule is_listD)
  define rs where "rs = b # bs"
  define X where "X = h # as"
  define e where "e = last rs"
  define q where "q = last X"
  note pA = chain_parts[OF L(5), folded X_def, folded q_def]
  note pB = chain_parts[OF L'(5), folded rs_def]
  have pte: "prv S t' = Some e"
    using pB(6) by (simp add: e_def rs_def)
  have dA: "distinct (X @ [t])" using chain_distinct[OF L(5)] by (simp add: X_def)
  have dB: "distinct (h' # rs @ [t'])" using chain_distinct[OF L'(5)] by (simp add: rs_def)
  define CA where "CA = set (X @ [t])"
  define CB where "CB = set (h' # rs @ [t'])"
  have dj: "CA \<inter> CB = {}" using disj by (simp add: CA_def CB_def X_def rs_def)
  have alA: "\<forall>c\<in>CA. alive S c \<and> c < brk S"
    using chain_cells_alive[OF L(5)] by (simp add: CA_def X_def)
  have alB: "\<forall>c\<in>CB. alive S c \<and> c < brk S"
    using chain_cells_alive[OF L'(5)] by (simp add: CB_def rs_def)
  have rsne: "rs \<noteq> []" "hd rs = b" and Xne: "X \<noteq> []" by (simp_all add: rs_def X_def)
  have eR: "e \<in> set rs" unfolding e_def using rsne by simp
  have qX: "q \<in> set X" unfolding q_def using Xne by simp
  have bR: "b \<in> set rs" by (simp add: rs_def)
  have sub: "set X \<subseteq> CA" "t \<in> CA" "set rs \<subseteq> CB" "h' \<in> CB" "t' \<in> CB"
    by (auto simp: CA_def CB_def)
  have mem: "q \<in> CA" "t \<in> CA" "e \<in> CB" "b \<in> CB" "h' \<in> CB" "t' \<in> CB"
    using sub eR qX bR by blast+
  have live: "alive S q" "alive S t" "alive S e" "alive S b" "alive S h'" "alive S t'"
    using alA alB mem by blast+
  have ne1: "t \<noteq> t'" "b \<noteq> t" "e \<noteq> q" "h' \<noteq> q" "h' \<noteq> t" "e \<noteq> t" "b \<noteq> q" "t' \<noteq> q"
    using dj mem by blast+
  have ne2: "h' \<noteq> t'" "h' \<noteq> e" "h' \<noteq> b" "t' \<noteq> b" "t' \<noteq> e" "q \<noteq> t"
    using dA dB eR bR qX by auto
  let ?S2 = "upd_node (upd_node S h' (\<lambda>n. n\<lparr>next' := Some t'\<rparr>)) t' (\<lambda>n. n\<lparr>prev := Some h'\<rparr>)"
  have cnt: "count_loop ?S2 (Some b) (Some e) 0 = Some (Inr (length rs))"
  proof -
    have "h' \<notin> set rs" using dB by simp
    then have f: "fpath (nxt ?S2) (b # bs)"
      using pB(3) live by (simp add: rs_def)
    have a: "list_all (alive ?S2) (b # bs)"
      using alB sub(3) by (auto simp: list_all_iff rs_def)
    have d: "distinct (b # bs)" using dB by (simp add: rs_def)
    have "count_loop ?S2 (Some b) (Some (last (b # bs))) 0 =
                       Some (Inr (0 + length (b # bs)))"
      using d a f by (rule count_loop_ok)
    then show ?thesis by (simp add: e_def rs_def)
  qed
  let ?S3 = "?S2\<lparr>objs := (objs S)(l' \<mapsto> L'\<lparr>sz := 0\<rparr>)\<rparr>"
  let ?S4 = "?S3\<lparr>objs := (objs ?S3)(l \<mapsto> L\<lparr>sz := sz L + length rs\<rparr>)\<rparr>"
  define Sf where "Sf = upd_node (upd_node (upd_node (upd_node ?S4 e (\<lambda>n. n\<lparr>next' := Some t\<rparr>))
       b (\<lambda>n. n\<lparr>prev := Some q\<rparr>)) q (\<lambda>n. n\<lparr>next' := Some b\<rparr>)) t (\<lambda>n. n\<lparr>prev := Some e\<rparr>)"
  have szr: "sz L' = length rs" using L'(4) by (simp add: rs_def)
  have run: "merge_rest S l l' La Lb (Some b) = Some (Inr Sf)"
    unfolding Sf_def
    using rec live pte pA(6) cnt L(1) L'(1) szr ll ne1(1,2)
    by (simp add: merge_rest_def Let_def)
  have views: "alive Sf = alive S" "vl Sf = vl S" "brk Sf = brk S"
    "nxt Sf = (nxt S)(h' := Some t', e := Some t, q := Some b)"
    "prv Sf = (prv S)(t' := Some h', b := Some q, t := Some e)"
    unfolding Sf_def using live by simp_all
  \<comment> \<open>the list that receives the nodes\<close>
  have nX: "h' \<notin> set X" "e \<notin> set X" "q \<notin> set (butlast X)" "t' \<notin> set X" "b \<notin> set X" "t \<notin> set X"
  proof -
    show "h' \<notin> set X" "e \<notin> set X" "t' \<notin> set X" "b \<notin> set X"
      using dj sub(1) mem by blast+
    show "t \<notin> set X" using dA by simp
    have "distinct X" using dA by simp
    then show "q \<notin> set (butlast X)"
      unfolding q_def using Xne by (metis append_butlast_last_id distinct_append
          disjoint_iff list.set_intros(1))
  qed
  have nR: "h' \<notin> set rs" "q \<notin> set rs" "e \<notin> set (butlast rs)" "t' \<notin> set rs"
    "b \<notin> set (tl rs)" "t \<notin> set rs"
  proof -
    show "q \<notin> set rs" "t \<notin> set rs" using dj sub(3) mem by blast+
    show "h' \<notin> set rs" "t' \<notin> set rs" using dB by simp_all
    have d: "distinct rs" using dB by simp
    then show "e \<notin> set (butlast rs)"
      unfolding e_def using rsne by (metis append_butlast_last_id distinct_append
          disjoint_iff list.set_intros(1))
    show "b \<notin> set (tl rs)" using d by (simp add: rs_def)
  qed
  have fX: "fpath (nxt Sf) X"
    unfolding views using pA(1) nX by (simp add: fpath_upd_butlast)
  have bX: "bpath (prv Sf) X"
    unfolding views using pA(2) nX by simp
  have fR: "fpath (nxt Sf) rs"
    unfolding views using pB(3) nR by (simp add: fpath_upd_butlast)
  have bR': "bpath (prv Sf) rs"
    unfolding views using pB(4) nR by (simp add: bpath_upd_tl)
  have fXR: "fpath (nxt Sf) (X @ rs)"
    using fX fR rsne Xne ne1 by (simp add: fpath_append views q_def[symmetric])
  have bXR: "bpath (prv Sf) (X @ rs)"
    using bX bR' rsne Xne ne1 by (simp add: bpath_append views q_def[symmetric])
  have lastXR: "last (X @ rs) = e" using rsne by (simp add: e_def)
  have dAll: "distinct (X @ rs @ [t])"
  proof -
    have "set X \<inter> set rs = {}" using dj sub by blast
    then show ?thesis using dA dB nR(6) by auto
  qed
  have alAll: "\<forall>a\<in>set (X @ rs @ [t]). alive Sf a \<and> a < brk Sf"
    unfolding views using alA alB sub by auto
  have ends: "nxt Sf e = Some t" "prv Sf t = Some e" "prv Sf h = None" "nxt Sf t = None"
  proof -
    show "nxt Sf e = Some t" "prv Sf t = Some e" unfolding views using ne1 by simp_all
    have "h \<in> set X" by (simp add: X_def)
    then have "h \<noteq> t'" "h \<noteq> b" "h \<noteq> t" using nX by blast+
    then show "prv Sf h = None" unfolding views using pA(7) by simp
    show "nxt Sf t = None" unfolding views using pA(8) ne1 ne2 by simp
  qed
  have cA: "chain Sf h (as @ rs) t"
  proof (rule chainI)
    show "distinct (h # (as @ rs) @ [t])" using dAll by (simp add: X_def)
    show "\<forall>a\<in>set (h # (as @ rs) @ [t]). alive Sf a \<and> a < brk Sf"
      using alAll by (simp add: X_def)
    show "fpath (nxt Sf) (h # as @ rs)" using fXR by (simp add: X_def)
    show "bpath (prv Sf) (h # as @ rs)" using bXR by (simp add: X_def)
    show "nxt Sf (last (h # as @ rs)) = Some t" using ends(1) lastXR by (simp add: X_def)
    show "prv Sf t = Some (last (h # as @ rs))" using ends(2) lastXR by (simp add: X_def)
    show "prv Sf h = None" "nxt Sf t = None" using ends by simp_all
  qed
  have oA: "objs Sf l = Some (L\<lparr>sz := sz L + length rs\<rparr>)" by (simp add: Sf_def)
  have vA: "vl Sf h = None" "vl Sf t = None" "list_all (\<lambda>a. vl Sf a \<noteq> None) (as @ rs)"
    unfolding views using L(6-8) L'(8) by (simp_all add: rs_def)
  have ilA: "is_list Sf l h (as @ rs) t"
    using oA _ _ _ cA vA by (rule is_listI) (simp_all add: L(2-4))
  \<comment> \<open>the list that gives the nodes\<close>
  have cB: "chain Sf h' [] t'"
  proof (rule chainI)
    show "distinct (h' # [] @ [t'])" using ne2 by simp
    show "\<forall>a\<in>set (h' # [] @ [t']). alive Sf a \<and> a < brk Sf"
      unfolding views using alB mem by simp
    show "fpath (nxt Sf) [h']" "bpath (prv Sf) [h']" by simp_all
    show "nxt Sf (last [h']) = Some t'" unfolding views using ne1 ne2 by simp
    show "prv Sf t' = Some (last [h'])" unfolding views using ne1 ne2 by simp
    show "prv Sf h' = None" unfolding views using pB(7) ne1 ne2 by simp
    show "nxt Sf t' = None" unfolding views using pB(8) ne1 ne2 by simp
  qed
  have oB: "objs Sf l' = Some (L'\<lparr>sz := 0\<rparr>)" using ll by (simp add: Sf_def)
  have vB: "vl Sf h' = None" "vl Sf t' = None" "list_all (\<lambda>a. vl Sf a \<noteq> None) []"
    unfolding views using L'(6,7) by simp_all
  have ilB: "is_list Sf l' h' [] t'"
    using oB _ _ _ cB vB by (rule is_listI) (simp_all add: L'(2,3))
  have frame: "\<forall>c. c \<notin> set (h # as @ [t]) \<union> set (h' # (b # bs) @ [t']) \<longrightarrow>
                   nodes Sf c = nodes S c"
  proof (intro allI impI)
    fix c assume "c \<notin> set (h # as @ [t]) \<union> set (h' # (b # bs) @ [t'])"
    then have "c \<notin> CA" "c \<notin> CB" by (simp_all add: CA_def CB_def X_def rs_def)
    then have "c \<noteq> h'" "c \<noteq> e" "c \<noteq> q" "c \<noteq> t'" "c \<noteq> b" "c \<noteq> t"
      using mem by blast+
    then show "nodes Sf c = nodes S c"
      using views by (intro node_eqI) simp_all
  qed
  have others: "\<forall>k. k \<noteq> l \<and> k \<noteq> l' \<longrightarrow> objs Sf k = objs S k"
    by (simp add: Sf_def)
  show ?thesis
    using run ilA ilB views(1-3) frame others
    unfolding rs_def by (intro exI[of _ Sf]) blast
qed

lemma mset_merge_run:
  "mset (fst (merge_run f as bs)) + mset (snd (merge_run f as bs)) = mset as + mset bs"
  using merge_run_stable[of f as bs] mset_stable_merge[of f as bs]
  by (metis mset_append)

lemma list_merge_ok:
  assumes A: "is_list S l h as t" and B: "is_list S l' h' bs t'" and ll: "l \<noteq> l'"
    and disj: "set (h # as @ [t]) \<inter> set (h' # bs @ [t']) = {}"
    and vals: "\<forall>c\<in>set as \<union> set bs. vl S c = Some (f c)"
  shows "\<exists>S'. list_merge S l l' = Some (Inr S') \<and>
              is_list S' l h (stable_merge f as bs) t \<and> is_list S' l' h' [] t' \<and>
              vl S' = vl S \<and> alive S' = alive S \<and> brk S' = brk S \<and>
              (\<forall>c. c \<notin> set (h # as @ [t]) \<union> set (h' # bs @ [t']) \<longrightarrow> nodes S' c = nodes S c) \<and>
              (\<forall>k. k \<noteq> l \<and> k \<noteq> l' \<longrightarrow> objs S' k = objs S k) \<and>
              (bs = [] \<longrightarrow> S' = S)"
proof -
  from A obtain L where L: "objs S l = Some L" "head L = Some h" "tail L = Some t"
    "sz L = length as" "chain S h as t"
    by (rule is_listD)
  from B obtain L' where L': "objs S l' = Some L'" "head L' = Some h'" "tail L' = Some t'"
    "sz L' = length bs" "chain S h' bs t'"
    by (rule is_listD)
  show ?thesis
  proof (cases "bs = []")
    case True
    then have "list_merge S l l' = Some (Inr S)"
      using ll L'(1,4) by (simp add: list_merge_def)
    then show ?thesis using True A B by simp
  next
    case False
    define m where "m = fst (merge_run f as bs)"
    define r where "r = snd (merge_run f as bs)"
    have nh: "nxt S h = Some (hd (as @ [t]))" "alive S h" "nxt S h' = Some (hd (bs @ [t']))" "alive S h'"
      using chain_nxt_head[OF L(5)] chain_alive[OF L(5), of h]
        chain_nxt_head[OF L'(5)] chain_alive[OF L'(5), of h'] by simp_all
    from A have A0: "is_list S l h ([] @ as) t" by simp
    have disj0: "set (h # [] @ as @ [t]) \<inter> set (h' # bs @ [t']) = {}" using disj by simp
    from merge_loop_ok[where f = f, OF A0 B ll disj0 vals] obtain S1 where S1:
      "merge_loop S l l' (Some t) (Some t') (Some (hd (as @ [t]))) (Some (hd (bs @ [t']))) =
                 Some (Inr (S1, Some (hd (r @ [t']))))"
      "is_list S1 l h m t" "is_list S1 l' h' r t'"
      "vl S1 = vl S" "alive S1 = alive S" "brk S1 = brk S"
      "\<forall>c. c \<notin> set (h # as @ [t]) \<union> set (h' # bs @ [t']) \<longrightarrow> nodes S1 c = nodes S c"
      "\<forall>k. k \<noteq> l \<and> k \<noteq> l' \<longrightarrow> objs S1 k = objs S k"
      unfolding m_def r_def by auto
    have pre: "list_merge S l l' =
      (if Some (hd (r @ [t'])) \<noteq> Some t' then merge_rest S1 l l' L L' (Some (hd (r @ [t'])))
       else Some (Inr S1))"
      using ll L(1-3) L'(1-4) False nh S1(1) by (simp add: list_merge_def)
    have mr: "m @ r = stable_merge f as bs"
      unfolding m_def r_def by (rule merge_run_stable)
    show ?thesis
    proof (cases r)
      case Nil
      then have "list_merge S l l' = Some (Inr S1)" using pre by simp
      moreover have "m = stable_merge f as bs" using mr Nil by simp
      ultimately show ?thesis using S1(2-8) Nil False by auto
    next
      case (Cons b rest)
      have B1: "is_list S1 l' h' (b # rest) t'" using S1(3) Cons by simp
      then have "is_list S1 l' h' ([] @ b # rest) t'" by simp
      note cb = is_list_cell[OF this]
      have rest: "list_merge S l l' = merge_rest S1 l l' L L' (Some b)"
        using pre Cons cb(2) by simp
      define CA where "CA = set (h # as @ [t])"
      define CB where "CB = set (h' # bs @ [t'])"
      have dj: "CA \<inter> CB = {}" using disj by (simp add: CA_def CB_def)
      have ms: "mset m + mset r = mset as + mset bs"
        unfolding m_def r_def by (rule mset_merge_run)
      then have sets: "set m \<union> set r = set as \<union> set bs"
        by (metis set_mset_mset set_mset_union)
      have "distinct (as @ bs)"
        using chain_distinct[OF L(5)] chain_distinct[OF L'(5)] dj
        by (auto simp: CA_def CB_def)
      moreover have "mset (m @ r) = mset (as @ bs)" using ms by simp
      ultimately have "distinct (m @ r)" by (metis mset_eq_imp_distinct_iff)
      then have mrd: "set m \<inter> set r = {}" by simp
      have rsub: "set r \<subseteq> set bs" unfolding r_def by (rule set_merge_run_snd)
      have hts: "h \<in> CA" "t \<in> CA" "h' \<in> CB" "t' \<in> CB" "set as \<subseteq> CA" "set bs \<subseteq> CB"
        by (auto simp: CA_def CB_def)
      have msub: "set m \<subseteq> CA \<union> CB" using sets hts by blast
      have dm: "h' \<notin> set m" "t' \<notin> set m" "h \<notin> set r" "t \<notin> set r"
      proof -
        have "distinct (h' # r @ [t'])" using chain_distinct[of S1 h' r t'] S1(3)
          by (auto simp: is_list_def split: option.splits)
        have "h' \<notin> set as \<union> set bs" "t' \<notin> set as \<union> set bs"
          using chain_distinct[OF L'(5)] dj hts by auto
        then show "h' \<notin> set m" "t' \<notin> set m" using sets by blast+
        show "h \<notin> set r" "t \<notin> set r" using rsub dj hts by blast+
      qed
      have disj1: "set (h # m @ [t]) \<inter> set (h' # (b # rest) @ [t']) = {}"
      proof -
        have "set (h # m @ [t]) = insert h (insert t (set m))" by auto
        moreover have "set (h' # (b # rest) @ [t']) = insert h' (insert t' (set r))"
          using Cons by auto
        moreover have "h \<noteq> h'" "h \<noteq> t'" "t \<noteq> h'" "t \<noteq> t'" using dj hts by blast+
        ultimately show ?thesis using mrd dm by auto
      qed
      from merge_rest_ok[OF S1(2) B1 ll disj1 L(3) L'(2,3)] obtain S' where S':
        "merge_rest S1 l l' L L' (Some b) = Some (Inr S')"
        "is_list S' l h (m @ b # rest) t" "is_list S' l' h' [] t'"
        "vl S' = vl S1" "alive S' = alive S1" "brk S' = brk S1"
        "\<forall>c. c \<notin> set (h # m @ [t]) \<union> set (h' # (b # rest) @ [t']) \<longrightarrow> nodes S' c = nodes S1 c"
        "\<forall>k. k \<noteq> l \<and> k \<noteq> l' \<longrightarrow> objs S' k = objs S1 k"
        by blast
      have il: "is_list S' l h (stable_merge f as bs) t"
        using S'(2) mr Cons by simp
      have frame: "\<forall>c. c \<notin> set (h # as @ [t]) \<union> set (h' # bs @ [t']) \<longrightarrow> nodes S' c = nodes S c"
      proof (intro allI impI)
        fix c assume c: "c \<notin> set (h # as @ [t]) \<union> set (h' # bs @ [t'])"
        then have "c \<notin> CA \<union> CB" by (simp add: CA_def CB_def)
        then have "c \<notin> insert h (insert t (set m)) \<union> insert h' (insert t' (set r))"
          using msub rsub hts by blast
        moreover have "set (h # m @ [t]) \<union> set (h' # (b # rest) @ [t']) =
            insert h (insert t (set m)) \<union> insert h' (insert t' (set r))"
          using Cons by auto
        ultimately have "nodes S' c = nodes S1 c" using S'(7) by simp
        then show "nodes S' c = nodes S c" using S1(7) c by simp
      qed
      show ?thesis
        using rest S'(1,3,4,5,6,8) S1(4,5,6,8) il frame False
        by (intro exI[of _ S']) simp
    qed
  qed
qed

lemma holds_key: "holds S as vs \<Longrightarrow> map (\<lambda>c. the (vl S c)) as = vs"
  by (induction as arbitrary: vs) (auto simp: holds_def)

lemma holds_length: "holds S as vs \<Longrightarrow> length vs = length as"
  by (metis holds_def length_map)

lemma zip_key: "zip as (map f as) = map (\<lambda>c. (c, f c)) as"
  by (induction as) simp_all

text \<open>
  C2. Let two different list objects satisfy the invariant and share no node, the values
  of each in ascending order of a linear order \<^verbatim>\<open><\<close>. Then \<^verbatim>\<open>merge\<close> returns, and afterwards
  the first list links the nodes of both, their values in ascending order: paired with
  their values, the nodes are in the order of \<open>stable_merge\<close>, which takes the next node
  of the second list before the current node of the first one only when its value is
  strictly less. So a node that came from the second list stands before a node that came
  from the first one only when its value is strictly less, and of equal values those of
  the first list come first. Every node of the second list is now a node of the first
  one; no value has changed and no node has been allocated or destroyed, the nodes
  outside the two lists are as they were; the second list satisfies the invariant with
  no node and its count is zero. Merging an empty list leaves the store as it was, and so
  does merging a list into itself.
\<close>

theorem merge_contract:
  fixes S :: "'a::linorder state"
  assumes A: "is_list S l h as t" and B: "is_list S l' h' bs t'" and ll: "l \<noteq> l'"
    and disj: "set (h # as @ [t]) \<inter> set (h' # bs @ [t']) = {}"
    and va: "holds S as vs" and vb: "holds S bs ws"
    and sa: "sorted vs" and sb: "sorted ws"
  shows "(\<exists>S' cs us. list_merge S l l' = Some (Inr S') \<and>
            is_list S' l h cs t \<and> holds S' cs us \<and>
            zip cs us = stable_merge snd (zip as vs) (zip bs ws) \<and>
            sorted us \<and> mset us = mset vs + mset ws \<and> mset cs = mset as + mset bs \<and>
            (\<forall>i j. i < j \<and> j < length cs \<and> cs ! i \<in> set bs \<and> cs ! j \<in> set as \<longrightarrow>
                   us ! i < us ! j) \<and>
            is_list S' l' h' [] t' \<and> list_size S' l' = Inr 0 \<and>
            vl S' = vl S \<and> alive S' = alive S \<and> brk S' = brk S \<and>
            (\<forall>c. c \<notin> set (h # as @ [t]) \<union> set (h' # bs @ [t']) \<longrightarrow> nodes S' c = nodes S c) \<and>
            (bs = [] \<longrightarrow> S' = S)) \<and>
         list_merge S l l = Some (Inr S)"
proof -
  define f where "f = (\<lambda>c. the (vl S c))"
  have fa: "map f as = vs" and fb: "map f bs = ws"
    using holds_key[OF va] holds_key[OF vb] by (simp_all add: f_def)
  have "list_all (\<lambda>a. vl S a \<noteq> None) as" "list_all (\<lambda>a. vl S a \<noteq> None) bs"
    using A B by (auto simp: is_list_def split: option.splits)
  then have vals: "\<forall>c\<in>set as \<union> set bs. vl S c = Some (f c)"
    by (auto simp: f_def list_all_iff)
  define cs where "cs = stable_merge f as bs"
  define us where "us = map f cs"
  from list_merge_ok[where f = f, OF A B ll disj vals] obtain S' where S':
    "list_merge S l l' = Some (Inr S')" "is_list S' l h cs t" "is_list S' l' h' [] t'"
    "vl S' = vl S" "alive S' = alive S" "brk S' = brk S"
    "\<forall>c. c \<notin> set (h # as @ [t]) \<union> set (h' # bs @ [t']) \<longrightarrow> nodes S' c = nodes S c"
    "bs = [] \<longrightarrow> S' = S"
    unfolding cs_def by blast
  have scs: "set cs = set as \<union> set bs" unfolding cs_def by (rule set_stable_merge)
  have h: "holds S' cs us"
    using vals scs by (simp add: holds_def us_def S'(4))
  have z: "zip cs us = stable_merge snd (zip as vs) (zip bs ws)"
    unfolding fa[symmetric] fb[symmetric] us_def zip_key stable_merge_map cs_def by simp
  have so: "sorted us"
    unfolding us_def cs_def using sa sb fa fb by (intro sorted_stable_merge) simp_all
  have mc: "mset cs = mset as + mset bs" unfolding cs_def by (rule mset_stable_merge)
  have "mset us = image_mset f (mset cs)" by (simp add: us_def)
  also have "\<dots> = mset (map f as) + mset (map f bs)" by (simp add: mc)
  finally have mu: "mset us = mset vs + mset ws" by (simp add: fa fb)
  have da: "distinct as" "set as \<inter> set bs = {}"
    using A disj by (auto simp: is_list_def chain_def split: option.splits)
  have ties: "\<forall>i j. i < j \<and> j < length cs \<and> cs ! i \<in> set bs \<and> cs ! j \<in> set as \<longrightarrow> us ! i < us ! j"
  proof (intro allI impI)
    fix i j assume ij: "i < j \<and> j < length cs \<and> cs ! i \<in> set bs \<and> cs ! j \<in> set as"
    have sp: "stable_merge f as bs = take j cs @ drop j cs" by (simp add: cs_def)
    have "take j cs ! i = cs ! i" "i < length (take j cs)" using ij by simp_all
    then have y: "cs ! i \<in> set (take j cs)" by (metis nth_mem)
    have "drop j cs ! 0 = cs ! j" "0 < length (drop j cs)" using ij by simp_all
    then have x: "cs ! j \<in> set (drop j cs)" by (metis nth_mem)
    have "sorted (map f as)" using sa fa by simp
    from stable_merge_ties[OF this da sp y _ x] ij have "f (cs ! i) < f (cs ! j)" by simp
    then show "us ! i < us ! j" using ij by (simp add: us_def)
  qed
  have sz: "list_size S' l' = Inr 0"
    using S'(3) by (auto simp: is_list_def list_size_def list_at_def split: option.splits)
  have self: "list_merge S l l = Some (Inr S)" by (simp add: list_merge_def)
  show ?thesis
    using S'(1-8) h z so mu mc ties sz self by blast
qed

lemma is_list_store_135_234:
  "is_list store_135_234 0 0 [4, 5, 6] 1" "is_list store_135_234 1 2 [7, 8, 9] 3"
  by (simp_all add: store_135_234_def is_list_def chain_def alive_def nxt_def prv_def vl_def)

lemma holds_store_135_234:
  "holds store_135_234 [4, 5, 6] [1, 3, 5]" "holds store_135_234 [7, 8, 9] [2, 3, 4]"
  by (simp_all add: holds_def store_135_234_def vl_def)

theorem merge_contract_witness:
  "is_list store_135_234 0 0 [4, 5, 6] 1 \<and> is_list store_135_234 1 2 [7, 8, 9] 3 \<and>
   holds store_135_234 [4, 5, 6] [1, 3, 5] \<and> holds store_135_234 [7, 8, 9] [2, 3, 4] \<and>
   (\<exists>S'. list_merge store_135_234 0 1 = Some (Inr S') \<and>
          is_list S' 0 0 [4, 7, 5, 8, 9, 6] 1 \<and> holds S' [4, 7, 5, 8, 9, 6] [1, 2, 3, 3, 4, 5] \<and>
          is_list S' 1 2 [] 3 \<and> list_size S' 1 = Inr 0)"
proof -
  have d: "(0::nat) \<noteq> 1" "set (0 # [4, 5, 6] @ [1]) \<inter> set (2 # [7, 8, 9::nat] @ [3]) = {}"
    "sorted [1, 3, 5::nat]" "sorted [2, 3, 4::nat]"
    by simp_all
  from merge_contract [OF is_list_store_135_234 d(1,2) holds_store_135_234 d(3,4)]
  obtain S' cs us where S': "list_merge store_135_234 0 1 = Some (Inr S')"
    "is_list S' 0 0 cs 1" "holds S' cs us"
    "zip cs us = stable_merge snd (zip [4, 5, 6] [1, 3, 5]) (zip [7, 8, 9] [2, 3, 4])"
    "is_list S' 1 2 [] 3" "list_size S' 1 = Inr 0"
    by blast
  have z: "zip cs us = [(4, 1), (7, 2), (5, 3), (8, 3), (9, 4), (6, 5)]"
    using S'(4) by simp
  have len: "length us = length cs" using S'(3) by (rule holds_length)
  have "cs = map fst (zip cs us)" "us = map snd (zip cs us)" using len by simp_all
  then have "cs = [4, 7, 5, 8, 9, 6]" "us = [1, 2, 3, 3, 4, 5]" unfolding z by simp_all
  then show ?thesis
    using S'(1,2,3,5,6) is_list_store_135_234 holds_store_135_234 by blast
qed

section \<open>Construction, clear and the ends of the list\<close>

lemma list_init_ok:
  "\<exists>S'. list_init S l = Inr S' \<and> is_list S' l (brk S) [] (Suc (brk S)) \<and>
        brk S' = Suc (Suc (brk S)) \<and>
        (\<forall>a. a \<noteq> brk S \<and> a \<noteq> Suc (brk S) \<longrightarrow> nodes S' a = nodes S a) \<and>
        (\<forall>k. k \<noteq> l \<longrightarrow> objs S' k = objs S k)"
proof -
  define A where "A = alloc (alloc S None) None"
  define B where "B = A\<lparr>objs := (objs A)(l \<mapsto> \<lparr>head = Some (brk S), tail = Some (Suc (brk S)), sz = 0\<rparr>)\<rparr>"
  have vA: "alive A = (alive S)(brk S := True, Suc (brk S) := True)"
    "nxt A = (nxt S)(brk S := None, Suc (brk S) := None)"
    "prv A = (prv S)(brk S := None, Suc (brk S) := None)"
    "vl A = (vl S)(brk S := None, Suc (brk S) := None)"
    "objs A = objs S" "brk A = Suc (Suc (brk S))"
    by (simp_all add: A_def)
  have vB: "alive B = alive A" "nxt B = nxt A" "prv B = prv A" "vl B = vl A" "brk B = brk A"
    "objs B = (objs A)(l \<mapsto> \<lparr>head = Some (brk S), tail = Some (Suc (brk S)), sz = 0\<rparr>)"
    by (simp_all add: B_def)
  have run0: "list_init S l =
     ebind (set_next B (Some (brk S)) (Some (Suc (brk S)))) (\<lambda>S1.
         ebind (set_prev S1 (Some (brk S)) None) (\<lambda>S1.
         ebind (set_prev S1 (Some (Suc (brk S))) (Some (brk S))) (\<lambda>S1.
         ebind (set_next S1 (Some (Suc (brk S))) None) (\<lambda>S1.
         set_sz S1 l 0))))"
    by (simp add: list_init_def A_def B_def)
  obtain S' where S': "list_init S l = Inr S'"
    "alive S' = alive B" "nxt S' = (nxt B)(brk S := Some (Suc (brk S)), Suc (brk S) := None)"
    "prv S' = (prv B)(brk S := None, Suc (brk S) := Some (brk S))" "vl S' = vl B"
    "brk S' = brk B" "objs S' = objs B"
    unfolding run0 by (simp add: vA vB set_sz_def)
  have il: "is_list S' l (brk S) [] (Suc (brk S))"
    by (simp add: is_list_def chain_def S'(2-7) vA vB)
  have fr: "\<forall>a. a \<noteq> brk S \<and> a \<noteq> Suc (brk S) \<longrightarrow> nodes S' a = nodes S a"
    by (auto intro!: node_eqI simp: S'(2-7) vA vB)
  show ?thesis
    using S'(1) il fr by (auto simp: S'(6,7) vA vB)
qed

lemma nodes_free [simp]: "nodes (free S a) b = (if b = a then None else nodes S b)"
  by (simp add: free_def)

lemma clear_loop_ok:
  assumes "distinct (cs @ [t])" "\<forall>a\<in>set cs. alive S a" "fpath (nxt S) (cs @ [t])"
  shows "\<exists>S'. clear_loop S (Some (hd (cs @ [t]))) (Some t) = Some (Inr S') \<and>
              (\<forall>a. nodes S' a = (if a \<in> set cs then None else nodes S a)) \<and>
              objs S' = objs S \<and> brk S' = brk S"
  using assms
proof (induction cs arbitrary: S)
  case Nil
  then show ?case by (subst clear_loop.simps) simp
next
  case (Cons c cs)
  have n: "nxt S c = Some (hd (cs @ [t]))" "alive S c" "c \<noteq> t"
    using Cons.prems by (cases cs; simp)+
  have "distinct (cs @ [t])" "\<forall>a\<in>set cs. alive (free S c) a" "fpath (nxt (free S c)) (cs @ [t])"
    using Cons.prems by (cases cs; auto)+
  from Cons.IH[OF this] obtain S' where S':
    "clear_loop (free S c) (Some (hd (cs @ [t]))) (Some t) = Some (Inr S')"
    "\<forall>a. nodes S' a = (if a \<in> set cs then None else nodes (free S c) a)"
    "objs S' = objs (free S c)" "brk S' = brk (free S c)"
    by blast
  have "clear_loop S (Some (hd ((c # cs) @ [t]))) (Some t) = Some (Inr S')"
    using n S'(1) by (subst clear_loop.simps) simp
  then show ?case using S'(2-4) by auto
qed

lemma list_clear_ok:
  assumes il: "is_list S l h as t"
  shows "\<exists>S'. list_clear S l = Some (Inr S') \<and> is_list S' l h [] t \<and>
              (\<forall>a\<in>set as. nodes S' a = None) \<and>
              (\<forall>a. a \<notin> set (h # as @ [t]) \<longrightarrow> nodes S' a = nodes S a) \<and>
              brk S' = brk S \<and> (\<forall>k. k \<noteq> l \<longrightarrow> objs S' k = objs S k)"
proof -
  from il obtain L where L: "objs S l = Some L" "head L = Some h" "tail L = Some t"
    "sz L = length as" "chain S h as t" "vl S h = None" "vl S t = None"
    by (rule is_listD)
  note P = chain_parts[OF L(5)]
  have d: "distinct (h # as @ [t])" using L(5) by (rule chain_distinct)
  have al: "\<forall>a\<in>set (h # as @ [t]). alive S a \<and> a < brk S"
    using L(5) by (simp add: chain_def list_all_iff)
  have nh: "nxt S h = Some (hd (as @ [t]))" using L(5) by (rule chain_nxt_head)
  have fp: "fpath (nxt S) (as @ [t])" using L(5) by (cases as) (simp_all add: chain_def)
  have "distinct (as @ [t])" "\<forall>a\<in>set as. alive S a" using d al by simp_all
  from clear_loop_ok[OF this fp] obtain S1 where S1:
    "clear_loop S (Some (hd (as @ [t]))) (Some t) = Some (Inr S1)"
    "\<forall>a. nodes S1 a = (if a \<in> set as then None else nodes S a)"
    "objs S1 = objs S" "brk S1 = brk S"
    by blast
  have "nodes S1 h = nodes S h" "nodes S1 t = nodes S t" using S1(2) d by simp_all
  note sh = same_node[OF this(1)] and st = same_node[OF this(2)]
  have live: "alive S1 h" "alive S1 t" "h \<noteq> t" using sh st al d by auto
  define S2 where "S2 = upd_node (upd_node S1 h (\<lambda>n. n\<lparr>next' := Some t\<rparr>)) t (\<lambda>n. n\<lparr>prev := Some h\<rparr>)"
  define S' where "S' = S2\<lparr>objs := (objs S2)(l \<mapsto> L\<lparr>sz := 0\<rparr>)\<rparr>"
  have v2: "alive S2 = alive S1" "nxt S2 = (nxt S1)(h := Some t)" "prv S2 = (prv S1)(t := Some h)"
    "vl S2 = vl S1" "objs S2 = objs S1" "brk S2 = brk S1"
    unfolding S2_def using live by simp_all
  have v': "alive S' = alive S1" "nxt S' = (nxt S1)(h := Some t)" "prv S' = (prv S1)(t := Some h)"
    "vl S' = vl S1" "objs S' = (objs S)(l \<mapsto> L\<lparr>sz := 0\<rparr>)" "brk S' = brk S"
    unfolding S'_def using v2 S1(3,4) by simp_all
  have run: "list_clear S l = Some (Inr S')"
    using L(1-3) al nh S1(1,3) live
    by (simp add: list_clear_def set_sz_def S'_def S2_def)
  have il': "is_list S' l h [] t"
    using live sh st al P(7,8) L(2,3,6,7) by (simp add: is_list_def chain_def v')
  have gone: "\<forall>a\<in>set as. nodes S' a = None"
  proof
    fix a assume a: "a \<in> set as"
    then have "a \<noteq> h" "a \<noteq> t" using d by auto
    then show "nodes S' a = None" using S1(2) a by (simp add: S'_def S2_def)
  qed
  have fr: "\<forall>a. a \<notin> set (h # as @ [t]) \<longrightarrow> nodes S' a = nodes S a"
    using S1(2) by (simp add: S'_def S2_def)
  show ?thesis
    using run il' gone fr v'(5,6) by auto
qed

lemma list_begin_ok:
  assumes il: "is_list S l h as t"
  shows "list_begin S l = Inr \<lparr>cur = Some (hd (as @ [t])), owner = Some l\<rparr>"
proof -
  from il obtain L where L: "objs S l = Some L" "head L = Some h" "tail L = Some t"
    "sz L = length as" "chain S h as t"
    by (rule is_listD)
  have "alive S h" using chain_alive[OF L(5), of h] by simp
  then show ?thesis
    using L(1-4) chain_nxt_head[OF L(5)] by (cases as) (simp_all add: list_begin_def)
qed

lemma list_push_front_ok:
  assumes il: "is_list S l h as t"
  shows "\<exists>S'. list_push_front S l v = Inr S' \<and> is_list S' l h (brk S # as) t \<and>
              vl S' = (vl S)(brk S := Some v) \<and> brk S' = Suc (brk S) \<and>
              (\<forall>a. a \<notin> set (h # as @ [t]) \<and> a \<noteq> brk S \<longrightarrow> nodes S' a = nodes S a) \<and>
              (\<forall>l'. l' \<noteq> l \<longrightarrow> objs S' l' = objs S l')"
proof -
  from il have "is_list S l h ([] @ as) t" by simp
  from list_insert_ok[OF this, of v] obtain S' where S':
    "list_insert S l \<lparr>cur = Some (hd (as @ [t])), owner = Some l\<rparr> v =
                 Inr (\<lparr>cur = Some (brk S), owner = Some l\<rparr>, S')"
    "is_list S' l h (brk S # as) t" "vl S' = (vl S)(brk S := Some v)" "brk S' = Suc (brk S)"
    "\<forall>a. a \<notin> set (h # as @ [t]) \<and> a \<noteq> brk S \<longrightarrow> nodes S' a = nodes S a"
    "\<forall>l'. l' \<noteq> l \<longrightarrow> objs S' l' = objs S l'"
    by auto
  have "list_push_front S l v = Inr S'"
    using list_begin_ok[OF il] S'(1) by (simp add: list_push_front_def)
  then show ?thesis using S'(2-6) by blast
qed

lemma list_pop_front_ok:
  assumes il: "is_list S l h (p # zs) t"
  shows "\<exists>S'. list_pop_front S l = Inr S' \<and> is_list S' l h zs t \<and>
              nodes S' p = None \<and> brk S' = brk S \<and>
              (\<forall>a. a \<noteq> p \<longrightarrow> vl S' a = vl S a) \<and>
              (\<forall>a. a \<notin> set (h # p # zs @ [t]) \<longrightarrow> nodes S' a = nodes S a) \<and>
              (\<forall>l'. l' \<noteq> l \<longrightarrow> objs S' l' = objs S l')"
proof -
  from il obtain L where L: "objs S l = Some L" "head L = Some h" "tail L = Some t"
    "sz L = length (p # zs)" "chain S h (p # zs) t"
    by (rule is_listD)
  have h: "alive S h" "nxt S h = Some p"
    using chain_alive[OF L(5), of h] chain_nxt_head[OF L(5)] by simp_all
  from il have "is_list S l h ([] @ p # zs) t" by simp
  from list_erase_ok[OF this] obtain S' where S':
    "list_erase S l \<lparr>cur = Some p, owner = Some l\<rparr> =
                 Inr (\<lparr>cur = Some (hd (zs @ [t])), owner = Some l\<rparr>, S')"
    "is_list S' l h zs t" "nodes S' p = None" "brk S' = brk S"
    "\<forall>a. a \<noteq> p \<longrightarrow> vl S' a = vl S a"
    "\<forall>a. a \<notin> set (h # p # zs @ [t]) \<longrightarrow> nodes S' a = nodes S a"
    "\<forall>l'. l' \<noteq> l \<longrightarrow> objs S' l' = objs S l'"
    by auto
  have "list_pop_front S l = Inr S'"
    using L(1,2,4) h S'(1) by (simp add: list_pop_front_def)
  then show ?thesis using S'(2-7) by blast
qed

lemma list_pop_back_ok:
  assumes il: "is_list S l h (xs @ [p]) t"
  shows "\<exists>S'. list_pop_back S l = Inr S' \<and> is_list S' l h xs t \<and>
              nodes S' p = None \<and> brk S' = brk S \<and>
              (\<forall>a. a \<noteq> p \<longrightarrow> vl S' a = vl S a) \<and>
              (\<forall>a. a \<notin> set (h # xs @ [p, t]) \<longrightarrow> nodes S' a = nodes S a) \<and>
              (\<forall>l'. l' \<noteq> l \<longrightarrow> objs S' l' = objs S l')"
proof -
  from il obtain L where L: "objs S l = Some L" "head L = Some h" "tail L = Some t"
    "sz L = length (xs @ [p])" "chain S h (xs @ [p]) t"
    by (rule is_listD)
  have t: "alive S t" "prv S t = Some p"
    using chain_alive[OF L(5), of t] chain_prv_tail[OF L(5)] by simp_all
  from il have "is_list S l h (xs @ p # []) t" by simp
  from list_erase_ok[OF this] obtain S' where S':
    "list_erase S l \<lparr>cur = Some p, owner = Some l\<rparr> =
                 Inr (\<lparr>cur = Some (hd ([] @ [t])), owner = Some l\<rparr>, S')"
    "is_list S' l h (xs @ []) t" "nodes S' p = None" "brk S' = brk S"
    "\<forall>a. a \<noteq> p \<longrightarrow> vl S' a = vl S a"
    "\<forall>a. a \<notin> set (h # xs @ p # [] @ [t]) \<longrightarrow> nodes S' a = nodes S a"
    "\<forall>l'. l' \<noteq> l \<longrightarrow> objs S' l' = objs S l'"
    by blast
  have "list_pop_back S l = Inr S'"
    using L(1,3,4) t S'(1) by (simp add: list_pop_back_def)
  then show ?thesis using S'(2-7) by auto
qed

lemma pop_empty:
  assumes il: "is_list S l h [] t"
  shows "list_pop_back S l = Inl container_is_empty" "list_pop_front S l = Inl container_is_empty"
  using il by (auto simp: is_list_def list_pop_back_def list_pop_front_def split: option.splits)

section \<open>Copying a list\<close>

lemma is_list_below:
  assumes "is_list S l h as t" "a \<in> set (h # as @ [t])"
  shows "a < brk S" "alive S a"
  using assms by (auto simp: is_list_def chain_def list_all_iff split: option.splits)

lemma copy_loop_ok:
  assumes A: "is_list S l h as t" and B: "is_list S l' h' (xs @ bs) t'" and ll: "l \<noteq> l'"
    and disj: "set (h # as @ [t]) \<inter> set (h' # xs @ bs @ [t']) = {}"
  shows "\<exists>S'. copy_loop S l (Some (hd (bs @ [t']))) (Some t') = Some (Inr S') \<and>
              is_list S' l h (as @ [brk S ..< brk S + length bs]) t \<and>
              is_list S' l' h' (xs @ bs) t' \<and>
              map (vl S') [brk S ..< brk S + length bs] = map (vl S) bs \<and>
              (\<forall>a. a < brk S \<longrightarrow> vl S' a = vl S a) \<and> brk S' = brk S + length bs \<and>
              (\<forall>a. a \<notin> set (h # as @ [t]) \<and> a < brk S \<longrightarrow> nodes S' a = nodes S a) \<and>
              (\<forall>k. k \<noteq> l \<longrightarrow> objs S' k = objs S k)"
  using assms
proof (induction bs arbitrary: S as xs)
  case Nil
  then show ?case by (subst copy_loop.simps) simp
next
  case (Cons b bs)
  note A = Cons.prems(1) and B = Cons.prems(2) and ll = Cons.prems(3) and disj = Cons.prems(4)
  note cb = is_list_cell[OF B]
  define CA where "CA = set (h # as @ [t])"
  define CB where "CB = set (h' # xs @ (b # bs) @ [t'])"
  have dj: "CA \<inter> CB = {}" using disj by (simp add: CA_def CB_def)
  have bB: "b \<in> CB" by (simp add: CB_def)
  have lowB: "\<forall>a\<in>CB. a < brk S"
    using is_list_below(1)[OF B] by (simp add: CB_def)
  from B obtain v where v: "vl S b = Some v"
    by (auto simp: is_list_def split: option.splits)
  from list_push_back_ok[OF A, of v] obtain S1 where S1:
    "list_push_back S l v = Inr S1" "is_list S1 l h (as @ [brk S]) t"
    "vl S1 = (vl S)(brk S := Some v)" "brk S1 = Suc (brk S)"
    "\<forall>a. a \<notin> set (h # as @ [t]) \<and> a \<noteq> brk S \<longrightarrow> nodes S1 a = nodes S a"
    "\<forall>l'. l' \<noteq> l \<longrightarrow> objs S1 l' = objs S l'"
    by blast
  have keepB: "\<forall>a\<in>CB. nodes S1 a = nodes S a"
  proof
    fix a assume a: "a \<in> CB"
    then have "a \<notin> CA" "a \<noteq> brk S" using dj lowB by auto
    then show "nodes S1 a = nodes S a" using S1(5) by (simp add: CA_def)
  qed
  have B1: "is_list S1 l' h' (xs @ b # bs) t'"
  proof (rule is_list_frame[OF B])
    show "\<forall>a\<in>set (h' # (xs @ b # bs) @ [t']). nodes S1 a = nodes S a"
      using keepB unfolding CB_def by simp
    show "brk S \<le> brk S1" using S1(4) by simp
    show "objs S1 l' = objs S l'" using S1(6) ll by simp
  qed
  then have B1': "is_list S1 l' h' ((xs @ [b]) @ bs) t'" by simp
  have nb: "nxt S1 b = Some (hd (bs @ [t']))" "alive S1 b"
    using is_list_cell[OF B1] by simp_all
  have nB: "brk S \<notin> CB" using lowB by auto
  have disj1: "set (h # (as @ [brk S]) @ [t]) \<inter> set (h' # (xs @ [b]) @ bs @ [t']) = {}"
  proof -
    have "set (h # (as @ [brk S]) @ [t]) = insert (brk S) CA" by (auto simp: CA_def)
    moreover have "set (h' # (xs @ [b]) @ bs @ [t']) = CB" by (auto simp: CB_def)
    ultimately show ?thesis using dj nB by auto
  qed
  from Cons.IH[OF S1(2) B1' ll disj1] obtain S' where S':
    "copy_loop S1 l (Some (hd (bs @ [t']))) (Some t') = Some (Inr S')"
    "is_list S' l h ((as @ [brk S]) @ [brk S1 ..< brk S1 + length bs]) t"
    "is_list S' l' h' ((xs @ [b]) @ bs) t'"
    "map (vl S') [brk S1 ..< brk S1 + length bs] = map (vl S1) bs"
    "\<forall>a. a < brk S1 \<longrightarrow> vl S' a = vl S1 a" "brk S' = brk S1 + length bs"
    "\<forall>a. a \<notin> set (h # (as @ [brk S]) @ [t]) \<and> a < brk S1 \<longrightarrow> nodes S' a = nodes S1 a"
    "\<forall>k. k \<noteq> l \<longrightarrow> objs S' k = objs S1 k"
    by blast
  have gv: "get_value S (Some b) = Inr v" using v cb(1) by simp
  have run: "copy_loop S l (Some (hd ((b # bs) @ [t']))) (Some t') = Some (Inr S')"
    using cb(2) gv S1(1) nb S'(1) by (subst copy_loop.simps) simp
  have "[brk S ..< brk S + Suc (length bs)] = brk S # [Suc (brk S) ..< brk S + Suc (length bs)]"
    by (rule upt_conv_Cons) simp
  then have upt: "[brk S ..< brk S + length (b # bs)] = brk S # [brk S1 ..< brk S1 + length bs]"
    by (simp add: S1(4))
  have bsB: "set bs \<subseteq> CB" by (auto simp: CB_def)
  have "map (vl S1) bs = map (vl S) bs"
    using bsB nB S1(3) by (intro map_cong) auto
  moreover have "vl S' (brk S) = vl S b" using S'(5) S1(3,4) v by simp
  ultimately have vals: "map (vl S') [brk S ..< brk S + length (b # bs)] = map (vl S) (b # bs)"
    unfolding upt using S'(4) by simp
  have low: "\<forall>a. a < brk S \<longrightarrow> vl S' a = vl S a"
    using S'(5) S1(3,4) by auto
  have fr: "\<forall>a. a \<notin> set (h # as @ [t]) \<and> a < brk S \<longrightarrow> nodes S' a = nodes S a"
  proof (intro allI impI)
    fix a assume a: "a \<notin> set (h # as @ [t]) \<and> a < brk S"
    then have "a \<notin> set (h # (as @ [brk S]) @ [t]) \<and> a < brk S1" using S1(4) by auto
    then have "nodes S' a = nodes S1 a" using S'(7) by blast
    then show "nodes S' a = nodes S a" using S1(5) a by auto
  qed
  have A': "is_list S' l h (as @ [brk S ..< brk S + length (b # bs)]) t"
    unfolding upt using S'(2) by simp
  show ?case
    using run A' S'(3) vals low fr S'(6,8) S1(4,6) by (intro exI[of _ S']) simp
qed

lemma copy_from_ok:
  assumes A: "is_list S l h as t" and B: "is_list S l' h' bs t'" and ll: "l \<noteq> l'"
    and disj: "set (h # as @ [t]) \<inter> set (h' # bs @ [t']) = {}"
  shows "\<exists>S'. copy_from S l l' = Some (Inr S') \<and>
              is_list S' l h (as @ [brk S ..< brk S + length bs]) t \<and>
              is_list S' l' h' bs t' \<and>
              map (vl S') [brk S ..< brk S + length bs] = map (vl S) bs \<and>
              (\<forall>a. a < brk S \<longrightarrow> vl S' a = vl S a) \<and> brk S' = brk S + length bs \<and>
              (\<forall>a. a \<notin> set (h # as @ [t]) \<and> a < brk S \<longrightarrow> nodes S' a = nodes S a) \<and>
              (\<forall>k. k \<noteq> l \<longrightarrow> objs S' k = objs S k)"
proof -
  from B obtain L' where L': "objs S l' = Some L'" "head L' = Some h'" "tail L' = Some t'"
    "chain S h' bs t'"
    by (rule is_listD)
  have h: "alive S h'" "nxt S h' = Some (hd (bs @ [t']))"
    using chain_alive[OF L'(4), of h'] chain_nxt_head[OF L'(4)] by simp_all
  have "copy_from S l l' = copy_loop S l (Some (hd (bs @ [t']))) (Some t')"
    using L'(1-3) h by (simp add: copy_from_def)
  moreover from B have "is_list S l' h' ([] @ bs) t'" by simp
  moreover have "set (h # as @ [t]) \<inter> set (h' # [] @ bs @ [t']) = {}" using disj by simp
  ultimately show ?thesis
    using copy_loop_ok[OF A _ ll, of h' "[]" bs t'] by simp
qed

lemma list_copy_ctor_ok:
  assumes B: "is_list S l' h' bs t'" and ll: "l \<noteq> l'"
  shows "\<exists>S'. list_copy_ctor S l l' = Some (Inr S') \<and>
              is_list S' l (brk S) [brk S + 2 ..< brk S + 2 + length bs] (Suc (brk S)) \<and>
              is_list S' l' h' bs t' \<and>
              map (vl S') [brk S + 2 ..< brk S + 2 + length bs] = map (vl S) bs \<and>
              (\<forall>a. a < brk S \<longrightarrow> nodes S' a = nodes S a) \<and>
              (\<forall>k. k \<noteq> l \<longrightarrow> objs S' k = objs S k)"
proof -
  define CB where "CB = set (h' # bs @ [t'])"
  have lowB: "\<forall>a\<in>CB. a < brk S"
    using is_list_below(1)[OF B] by (simp add: CB_def)
  from list_init_ok[of S l] obtain S0 where S0:
    "list_init S l = Inr S0" "is_list S0 l (brk S) [] (Suc (brk S))" "brk S0 = Suc (Suc (brk S))"
    "\<forall>a. a \<noteq> brk S \<and> a \<noteq> Suc (brk S) \<longrightarrow> nodes S0 a = nodes S a"
    "\<forall>k. k \<noteq> l \<longrightarrow> objs S0 k = objs S k"
    by blast
  have keepB: "\<forall>a\<in>CB. nodes S0 a = nodes S a"
    using lowB S0(4) by fastforce
  have B0: "is_list S0 l' h' bs t'"
  proof (rule is_list_frame[OF B])
    show "\<forall>a\<in>set (h' # bs @ [t']). nodes S0 a = nodes S a"
      using keepB unfolding CB_def by simp
    show "brk S \<le> brk S0" using S0(3) by simp
    show "objs S0 l' = objs S l'" using S0(5) ll by simp
  qed
  have "brk S \<notin> CB" "Suc (brk S) \<notin> CB" using lowB by auto
  then have disj: "set (brk S # [] @ [Suc (brk S)]) \<inter> set (h' # bs @ [t']) = {}"
    by (simp add: CB_def)
  from copy_from_ok[OF S0(2) B0 ll disj] obtain S' where S':
    "copy_from S0 l l' = Some (Inr S')"
    "is_list S' l (brk S) ([] @ [brk S0 ..< brk S0 + length bs]) (Suc (brk S))"
    "is_list S' l' h' bs t'"
    "map (vl S') [brk S0 ..< brk S0 + length bs] = map (vl S0) bs"
    "\<forall>a. a \<notin> set (brk S # [] @ [Suc (brk S)]) \<and> a < brk S0 \<longrightarrow> nodes S' a = nodes S0 a"
    "\<forall>k. k \<noteq> l \<longrightarrow> objs S' k = objs S0 k"
    by blast
  have run: "list_copy_ctor S l l' = Some (Inr S')"
    using S0(1) S'(1) by (simp add: list_copy_ctor_def)
  have b0: "brk S0 = brk S + 2" using S0(3) by simp
  have "\<forall>a\<in>set bs. vl S0 a = vl S a"
    using keepB same_node[of S0 _ S] by (auto simp: CB_def)
  then have "map (vl S0) bs = map (vl S) bs" by simp
  then have vals: "map (vl S') [brk S + 2 ..< brk S + 2 + length bs] = map (vl S) bs"
    using S'(4) by (simp add: b0)
  have fr: "\<forall>a. a < brk S \<longrightarrow> nodes S' a = nodes S a"
    using S'(5) S0(3,4) by auto
  show ?thesis
    using run S'(2,3,6) S0(5) vals fr by (intro exI[of _ S']) (simp add: b0)
qed

lemma list_assign_ok:
  assumes A: "is_list S l h as t" and B: "is_list S l' h' bs t'" and ll: "l \<noteq> l'"
    and disj: "set (h # as @ [t]) \<inter> set (h' # bs @ [t']) = {}"
  shows "\<exists>S'. list_assign S l l' = Some (Inr S') \<and>
              is_list S' l h [brk S ..< brk S + length bs] t \<and>
              is_list S' l' h' bs t' \<and>
              map (vl S') [brk S ..< brk S + length bs] = map (vl S) bs \<and>
              (\<forall>a. a \<notin> set (h # as @ [t]) \<and> a < brk S \<longrightarrow> nodes S' a = nodes S a) \<and>
              (\<forall>k. k \<noteq> l \<longrightarrow> objs S' k = objs S k)"
proof -
  define CA where "CA = set (h # as @ [t])"
  define CB where "CB = set (h' # bs @ [t'])"
  have dj: "CA \<inter> CB = {}" using disj by (simp add: CA_def CB_def)
  from list_clear_ok[OF A] obtain S1 where S1:
    "list_clear S l = Some (Inr S1)" "is_list S1 l h [] t"
    "\<forall>a. a \<notin> set (h # as @ [t]) \<longrightarrow> nodes S1 a = nodes S a"
    "brk S1 = brk S" "\<forall>k. k \<noteq> l \<longrightarrow> objs S1 k = objs S k"
    by blast
  have keepB: "\<forall>a\<in>CB. nodes S1 a = nodes S a"
    using dj S1(3) by (auto simp: CA_def)
  have B1: "is_list S1 l' h' bs t'"
  proof (rule is_list_frame[OF B])
    show "\<forall>a\<in>set (h' # bs @ [t']). nodes S1 a = nodes S a"
      using keepB unfolding CB_def by simp
    show "brk S \<le> brk S1" using S1(4) by simp
    show "objs S1 l' = objs S l'" using S1(5) ll by simp
  qed
  have "h \<in> CA" "t \<in> CA" by (simp_all add: CA_def)
  then have "h \<notin> CB" "t \<notin> CB" using dj by auto
  then have disj1: "set (h # [] @ [t]) \<inter> set (h' # bs @ [t']) = {}" by (simp add: CB_def)
  from copy_from_ok[OF S1(2) B1 ll disj1] obtain S' where S':
    "copy_from S1 l l' = Some (Inr S')"
    "is_list S' l h ([] @ [brk S1 ..< brk S1 + length bs]) t"
    "is_list S' l' h' bs t'"
    "map (vl S') [brk S1 ..< brk S1 + length bs] = map (vl S1) bs"
    "\<forall>a. a \<notin> set (h # [] @ [t]) \<and> a < brk S1 \<longrightarrow> nodes S' a = nodes S1 a"
    "\<forall>k. k \<noteq> l \<longrightarrow> objs S' k = objs S1 k"
    by blast
  have run: "list_assign S l l' = Some (Inr S')"
    using S1(1) S'(1) ll by (simp add: list_assign_def)
  have "\<forall>a\<in>set bs. vl S1 a = vl S a"
    using keepB same_node[of S1 _ S] by (auto simp: CB_def)
  then have "map (vl S1) bs = map (vl S) bs" by simp
  then have vals: "map (vl S') [brk S ..< brk S + length bs] = map (vl S) bs"
    using S'(4) S1(4) by simp
  have fr: "\<forall>a. a \<notin> set (h # as @ [t]) \<and> a < brk S \<longrightarrow> nodes S' a = nodes S a"
    using S'(5) S1(3,4) by auto
  show ?thesis
    using run S'(2,3,6) S1(4,5) vals fr by (intro exI[of _ S']) simp
qed

section \<open>sort\<close>

lemma collect_loop_ok:
  assumes "\<forall>a\<in>set zs. alive S a" "fpath (nxt S) (zs @ [t])" "t \<notin> set zs"
    "length arr + length zs \<le> n"
  shows "collect_loop S n (Some (hd (zs @ [t]))) (Some t) arr = Some (Inr (arr @ map Some zs))"
  using assms
proof (induction zs arbitrary: arr)
  case Nil
  then show ?case by (subst collect_loop.simps) simp
next
  case (Cons z zs)
  have n: "nxt S z = Some (hd (zs @ [t]))" "alive S z" "z \<noteq> t" "\<not> n \<le> length arr"
    using Cons.prems by (cases zs; simp)+
  have "\<forall>a\<in>set zs. alive S a" "fpath (nxt S) (zs @ [t])" "t \<notin> set zs"
    "length (arr @ [Some z]) + length zs \<le> n"
    using Cons.prems by (cases zs; simp)+
  from Cons.IH[OF this]
  have "collect_loop S n (Some (hd (zs @ [t]))) (Some t) (arr @ [Some z]) =
          Some (Inr ((arr @ [Some z]) @ map Some zs))" .
  then show ?case using n by (subst collect_loop.simps) simp
qed

lemma fpath_Cons_hd: "as \<noteq> [] \<Longrightarrow> fpath f (h # as) = (f h = Some (hd as) \<and> fpath f as)"
  by (cases as) simp_all

lemma bpath_Cons_hd: "as \<noteq> [] \<Longrightarrow> bpath g (h # as) = (g (hd as) = Some h \<and> bpath g as)"
  by (cases as) simp_all

lemma relink_ok:
  assumes "distinct cs" "\<forall>a\<in>set cs. alive S a"
  shows "\<exists>S'. relink S (map Some cs) = Inr S' \<and> alive S' = alive S \<and> vl S' = vl S \<and>
              objs S' = objs S \<and> brk S' = brk S \<and>
              fpath (nxt S') cs \<and> bpath (prv S') cs \<and>
              (\<forall>a. a \<notin> set (butlast cs) \<longrightarrow> nxt S' a = nxt S a) \<and>
              (\<forall>a. a \<notin> set (tl cs) \<longrightarrow> prv S' a = prv S a)"
  using assms
proof (induction cs arbitrary: S rule: induct_list012)
  case 1
  then show ?case by simp
next
  case (2 x)
  then show ?case by simp
next
  case (3 x y zs)
  define S2 where "S2 = upd_node (upd_node S x (\<lambda>n. n\<lparr>next' := Some y\<rparr>)) y (\<lambda>n. n\<lparr>prev := Some x\<rparr>)"
  have live: "alive S x" "alive S y" "x \<noteq> y" "x \<notin> set zs" "y \<notin> set zs"
    using "3.prems" by auto
  have v2: "alive S2 = alive S" "nxt S2 = (nxt S)(x := Some y)" "prv S2 = (prv S)(y := Some x)"
    "vl S2 = vl S" "objs S2 = objs S" "brk S2 = brk S"
    unfolding S2_def using live by simp_all
  have "distinct (y # zs)" "\<forall>a\<in>set (y # zs). alive S2 a"
    using "3.prems" v2(1) by simp_all
  from "3.IH"(2)[OF this] obtain S' where S':
    "relink S2 (map Some (y # zs)) = Inr S'" "alive S' = alive S2" "vl S' = vl S2"
    "objs S' = objs S2" "brk S' = brk S2" "fpath (nxt S') (y # zs)" "bpath (prv S') (y # zs)"
    "\<forall>a. a \<notin> set (butlast (y # zs)) \<longrightarrow> nxt S' a = nxt S2 a"
    "\<forall>a. a \<notin> set (tl (y # zs)) \<longrightarrow> prv S' a = prv S2 a"
    by blast
  have run: "relink S (map Some (x # y # zs)) = Inr S'"
    using S'(1) live by (simp add: S2_def)
  have xb: "x \<notin> set (butlast (y # zs))"
    using live(3,4) in_set_butlastD[of x "y # zs"] by auto
  have nx: "nxt S' x = Some y" using S'(8) xb v2(2) by simp
  have py: "prv S' y = Some x" using S'(9) live(5) v2(3) by simp
  have f: "fpath (nxt S') (x # y # zs)" using nx S'(6) by simp
  have b: "bpath (prv S') (x # y # zs)" using py S'(7) by simp
  have fn: "\<forall>a. a \<notin> set (butlast (x # y # zs)) \<longrightarrow> nxt S' a = nxt S a"
    using S'(8) v2(2) by simp
  have fp: "\<forall>a. a \<notin> set (tl (x # y # zs)) \<longrightarrow> prv S' a = prv S a"
    using S'(9) v2(3) by simp
  show ?case
    using run S'(2-5) v2(1,4,5,6) f b fn fp by (intro exI[of _ S']) simp
qed

lemma list_sort_ok:
  fixes S :: "'a::ord state"
  assumes il: "is_list S l h as t" and perm: "\<forall>c xs. mset (sort_fn c xs) = mset xs"
  shows "\<exists>S' as'. list_sort sort_fn S l = Some (Inr S') \<and> is_list S' l h as' t \<and>
              mset as' = mset as \<and>
              vl S' = vl S \<and> alive S' = alive S \<and> brk S' = brk S \<and> objs S' = objs S \<and>
              (\<forall>a. a \<notin> set (h # as @ [t]) \<longrightarrow> nodes S' a = nodes S a) \<and>
              (length as \<le> 1 \<longrightarrow> S' = S) \<and>
              (1 < length as \<longrightarrow> map Some as' = sort_fn (node_less S) (map Some as))"
proof -
  from il obtain L where L: "objs S l = Some L" "head L = Some h" "tail L = Some t"
    "sz L = length as" "chain S h as t" "vl S h = None" "vl S t = None"
    "list_all (\<lambda>a. vl S a \<noteq> None) as"
    by (rule is_listD)
  show ?thesis
  proof (cases "length as \<le> 1")
    case True
    then have "list_sort sort_fn S l = Some (Inr S)"
      using L(1,4) by (simp add: list_sort_def)
    then show ?thesis using il True by (intro exI[of _ S] exI[of _ as]) simp
  next
    case False
    note P = chain_parts[OF L(5)]
    have d: "distinct (h # as @ [t])" using L(5) by (rule chain_distinct)
    have al: "\<forall>a\<in>set (h # as @ [t]). alive S a \<and> a < brk S"
      using L(5) by (simp add: chain_def list_all_iff)
    define bs where "bs = map the (sort_fn (node_less S) (map Some as))"
    have ms: "mset (sort_fn (node_less S) (map Some as)) = mset (map Some as)"
      using perm by simp
    then have "set (sort_fn (node_less S) (map Some as)) = set (map Some as)"
      by (rule mset_eq_setD)
    then have "\<forall>x\<in>set (sort_fn (node_less S) (map Some as)). Some (the x) = x" by auto
    then have srt: "sort_fn (node_less S) (map Some as) = map Some bs"
      unfolding bs_def by (simp add: map_idI)
    have "mset (map the (sort_fn (node_less S) (map Some as))) = mset (map the (map Some as))"
      using ms by (metis mset_map)
    then have mb: "mset bs = mset as" by (simp add: bs_def comp_def)
    have len: "length bs = length as" using mb by (rule mset_eq_length)
    have sb: "set bs = set as" using mb by (rule mset_eq_setD)
    have db: "distinct bs" using mb d by (metis distinct.simps(2) distinct_append mset_eq_imp_distinct_iff)
    have ne: "bs \<noteq> []" using len False by auto
    define a0 where "a0 = hd bs"
    define z0 where "z0 = last bs"
    define CA where "CA = set as"
    have mem: "a0 \<in> CA" "z0 \<in> CA" "set bs = CA" "h \<notin> CA" "t \<notin> CA" "h \<noteq> t"
      "set (butlast bs) \<subseteq> CA" "set (tl bs) \<subseteq> CA"
      using ne sb d in_set_butlastD[of _ bs] list.set_sel(2)[of bs]
      by (auto simp: a0_def z0_def CA_def)
    have lv: "\<forall>a\<in>CA. alive S a \<and> a < brk S" "alive S h" "alive S t" "h < brk S" "t < brk S"
      using al by (simp_all add: CA_def)
    have ends: "a0 \<notin> set (tl bs)" "z0 \<notin> set (butlast bs)"
      using db ne unfolding a0_def z0_def
      by (metis distinct.simps(2) list.collapse, metis append_butlast_last_id distinct_append
          disjoint_iff list.set_intros(1))
    have nh: "nxt S h = Some (hd (as @ [t]))" using L(5) by (rule chain_nxt_head)
    have fp: "fpath (nxt S) (as @ [t])" using L(5) by (cases as) (simp_all add: chain_def)
    have cl: "collect_loop S (length as) (Some (hd (as @ [t]))) (Some t) [] = Some (Inr ([] @ map Some as))"
      using al d fp by (intro collect_loop_ok) simp_all
    have has: "list_all (has_value S) (map Some as)"
      using L(8) al by (auto simp: list_all_iff has_value_def)
    define S1 where "S1 = upd_node S h (\<lambda>n. n\<lparr>next' := Some a0\<rparr>)"
    define S2 where "S2 = upd_node S1 a0 (\<lambda>n. n\<lparr>prev := Some h\<rparr>)"
    have v2: "alive S2 = alive S" "nxt S2 = (nxt S)(h := Some a0)" "prv S2 = (prv S)(a0 := Some h)"
      "vl S2 = vl S" "objs S2 = objs S" "brk S2 = brk S"
      unfolding S2_def S1_def using lv mem(1) by simp_all
    have "\<forall>a\<in>set bs. alive S2 a" using lv(1) mem(3) v2(1) by simp
    from relink_ok[OF db this] obtain S3 where S3:
      "relink S2 (map Some bs) = Inr S3" "alive S3 = alive S2" "vl S3 = vl S2"
      "objs S3 = objs S2" "brk S3 = brk S2" "fpath (nxt S3) bs" "bpath (prv S3) bs"
      "\<forall>a. a \<notin> set (butlast bs) \<longrightarrow> nxt S3 a = nxt S2 a"
      "\<forall>a. a \<notin> set (tl bs) \<longrightarrow> prv S3 a = prv S2 a"
      by blast
    define S4 where "S4 = upd_node S3 z0 (\<lambda>n. n\<lparr>next' := Some t\<rparr>)"
    define S5 where "S5 = upd_node S4 t (\<lambda>n. n\<lparr>prev := Some z0\<rparr>)"
    have a3: "alive S3 = alive S" using S3(2) v2(1) by simp
    have v5: "alive S5 = alive S" "nxt S5 = (nxt S3)(z0 := Some t)" "prv S5 = (prv S3)(t := Some z0)"
      "vl S5 = vl S" "objs S5 = objs S" "brk S5 = brk S"
      unfolding S5_def S4_def using lv mem(2) a3 S3(3-5) v2(4-6) by simp_all
    have run: "list_sort sort_fn S l = Some (Inr S5)"
      using L(1-4) False lv(2,3) nh cl has srt len ne lv(1) mem(1,2) a3
        S3(1)[unfolded S2_def S1_def a0_def]
      by (simp add: list_sort_def hd_map last_map S5_def S4_def a0_def z0_def)
    have bl: "bs = butlast bs @ [z0]" using ne by (simp add: z0_def)
    have n5: "nxt S5 h = Some a0" "nxt S5 z0 = Some t" "nxt S5 t = None"
      using S3(8) v2(2) v5(2) mem P(8) by auto
    have p5: "prv S5 a0 = Some h" "prv S5 t = Some z0" "prv S5 h = None"
      using S3(9) v2(3) v5(3) mem ends P(7) by auto
    have "fpath (nxt S3) (butlast bs @ [z0])" using S3(6) bl by simp
    then have "fpath ((nxt S3)(z0 := Some t)) (butlast bs @ [z0])"
      using ends(2) by simp
    then have f5: "fpath (nxt S5) bs" using bl v5(2) by simp
    have b5: "bpath (prv S5) bs" using S3(7) v5(3) mem(3,5) by simp
    have ch: "chain S5 h bs t"
    proof (rule chainI)
      show "distinct (h # bs @ [t])" using db mem by auto
      show "\<forall>a\<in>set (h # bs @ [t]). alive S5 a \<and> a < brk S5"
        using lv mem(3) v5(1,6) by auto
      show "fpath (nxt S5) (h # bs)" using f5 n5(1) ne by (simp add: fpath_Cons_hd a0_def)
      show "bpath (prv S5) (h # bs)" using b5 p5(1) ne by (simp add: bpath_Cons_hd a0_def)
      show "nxt S5 (last (h # bs)) = Some t" using n5(2) ne by (simp add: z0_def)
      show "prv S5 t = Some (last (h # bs))" using p5(2) ne by (simp add: z0_def)
      show "prv S5 h = None" by (rule p5(3))
      show "nxt S5 t = None" by (rule n5(3))
    qed
    have vs: "list_all (\<lambda>a. vl S5 a \<noteq> None) bs"
      using L(8) sb v5(4) by (simp add: list_all_iff)
    have il': "is_list S5 l h bs t"
      using L(1)[folded v5(5)] L(2,3) _ ch _ _ vs
      by (rule is_listI) (simp_all add: len L(4,6,7) v5(4))
    have fr: "\<forall>a. a \<notin> set (h # as @ [t]) \<longrightarrow> nodes S5 a = nodes S a"
    proof (intro allI impI)
      fix a assume "a \<notin> set (h # as @ [t])"
      then have a: "a \<noteq> h" "a \<noteq> t" "a \<notin> CA" by (simp_all add: CA_def)
      then have "a \<noteq> a0" "a \<noteq> z0" "a \<notin> set (butlast bs)" "a \<notin> set (tl bs)"
        using mem by auto
      then have "nxt S5 a = nxt S a" "prv S5 a = prv S a"
        using S3(8,9) v2(2,3) v5(2,3) a by simp_all
      then show "nodes S5 a = nodes S a"
        by (intro node_eqI) (simp_all add: v5)
    qed
    show ?thesis
      using run il' mb v5(1,4,5,6) fr False srt
      by (intro exI[of _ S5] exI[of _ bs]) simp
  qed
qed

lemma mset_insert_by: "mset (insert_by lt x ys) = add_mset x (mset ys)"
  by (induction ys) simp_all

lemma mset_sjtu_sort: "mset (sjtu_sort lt xs) = mset xs"
  by (induction xs) (simp_all add: sjtu_sort_def mset_insert_by)

section \<open>The invariant under every operation\<close>

lemma other_kept:
  assumes B: "is_list S l' h' bs t'"
    and disj: "set (h # as @ [t]) \<inter> set (h' # bs @ [t']) = {}"
    and fr: "\<forall>a. a \<notin> set (h # as @ [t]) \<and> a < brk S \<longrightarrow> nodes S' a = nodes S a"
    and br: "brk S \<le> brk S'" and ob: "objs S' l' = objs S l'"
  shows "is_list S' l' h' bs t'"
proof (rule is_list_frame[OF B _ br ob])
  define CA where "CA = set (h # as @ [t])"
  define CB where "CB = set (h' # bs @ [t'])"
  have dj: "CA \<inter> CB = {}" using disj by (simp add: CA_def CB_def)
  have low: "\<forall>a\<in>CB. a < brk S" using is_list_below(1)[OF B] by (simp add: CB_def)
  have "\<forall>a\<in>CB. nodes S' a = nodes S a"
  proof
    fix a assume a: "a \<in> CB"
    then have "a \<notin> CA" "a < brk S" using dj low by auto
    then show "nodes S' a = nodes S a" using fr by (simp add: CA_def)
  qed
  then show "\<forall>a\<in>set (h' # bs @ [t']). nodes S' a = nodes S a" by (simp add: CB_def)
qed

lemma ctor_preserves:
  assumes A: "is_list S l h as t" and kl: "k \<noteq> l"
  shows "\<exists>S'. list_ctor S k = Inr S' \<and> is_list S' k (brk S) [] (Suc (brk S)) \<and>
              is_list S' l h as t"
proof -
  from list_init_ok[of S k] obtain S' where S':
    "list_init S k = Inr S'" "is_list S' k (brk S) [] (Suc (brk S))" "brk S' = Suc (Suc (brk S))"
    "\<forall>a. a \<noteq> brk S \<and> a \<noteq> Suc (brk S) \<longrightarrow> nodes S' a = nodes S a"
    "\<forall>j. j \<noteq> k \<longrightarrow> objs S' j = objs S j"
    by blast
  have "is_list S' l h as t"
  proof (rule is_list_frame[OF A])
    show "\<forall>a\<in>set (h # as @ [t]). nodes S' a = nodes S a"
    proof
      fix a assume "a \<in> set (h # as @ [t])"
      then have "a < brk S" by (rule is_list_below(1)[OF A])
      then show "nodes S' a = nodes S a" using S'(4) by simp
    qed
    show "brk S \<le> brk S'" using S'(3) by simp
    show "objs S' l = objs S l" using S'(5) kl by simp
  qed
  then show ?thesis using S'(1,2) by (auto simp: list_ctor_def)
qed

lemma copy_preserves:
  assumes A: "is_list S l h as t" and kl: "k \<noteq> l"
  shows "\<exists>S' cs. list_copy_ctor S k l = Some (Inr S') \<and>
              is_list S' k (brk S) cs (Suc (brk S)) \<and> length cs = length as \<and>
              map (vl S') cs = map (vl S) as \<and> is_list S' l h as t"
proof -
  from list_copy_ctor_ok[OF A kl] obtain S' where S':
    "list_copy_ctor S k l = Some (Inr S')"
    "is_list S' k (brk S) [brk S + 2 ..< brk S + 2 + length as] (Suc (brk S))"
    "is_list S' l h as t"
    "map (vl S') [brk S + 2 ..< brk S + 2 + length as] = map (vl S) as"
    by blast
  have "length [brk S + 2 ..< brk S + 2 + length as] = length as" by (subst length_upt) simp
  then show ?thesis using S' by blast
qed

lemma assign_preserves:
  assumes A: "is_list S l h as t" and B: "is_list S l' h' bs t'" and ll: "l \<noteq> l'"
    and disj: "set (h # as @ [t]) \<inter> set (h' # bs @ [t']) = {}"
  shows "\<exists>S' cs. list_assign S l l' = Some (Inr S') \<and> is_list S' l h cs t \<and>
              length cs = length bs \<and> map (vl S') cs = map (vl S) bs \<and>
              is_list S' l' h' bs t'"
proof -
  from list_assign_ok[OF A B ll disj] obtain S' where S':
    "list_assign S l l' = Some (Inr S')"
    "is_list S' l h [brk S ..< brk S + length bs] t"
    "is_list S' l' h' bs t'"
    "map (vl S') [brk S ..< brk S + length bs] = map (vl S) bs"
    by blast
  have "length [brk S ..< brk S + length bs] = length bs" by (subst length_upt) simp
  then show ?thesis using S' by blast
qed

lemma insert_preserves:
  assumes A: "is_list S l h as t" and B: "is_list S l' h' bs t'" and ll: "l \<noteq> l'"
    and disj: "set (h # as @ [t]) \<inter> set (h' # bs @ [t']) = {}"
    and p: "p \<in> set (as @ [t])"
  shows "\<exists>S' it as'. list_insert S l \<lparr>cur = Some p, owner = Some l\<rparr> v = Inr (it, S') \<and>
              is_list S' l h as' t \<and> length as' = Suc (length as) \<and>
              is_list S' l' h' bs t'"
proof -
  obtain xs zs where sp: "as = xs @ zs" "p = hd (zs @ [t])"
  proof (cases "p \<in> set as")
    case True
    then obtain xs zs where "as = xs @ p # zs" by (meson split_list)
    then show ?thesis using that[of xs "p # zs"] by simp
  next
    case False
    then have "p = t" using p by simp
    then show ?thesis using that[of as "[]"] by simp
  qed
  from A have "is_list S l h (xs @ zs) t" by (simp add: sp(1))
  from list_insert_ok[OF this, of v] obtain S' where S':
    "list_insert S l \<lparr>cur = Some p, owner = Some l\<rparr> v =
                 Inr (\<lparr>cur = Some (brk S), owner = Some l\<rparr>, S')"
    "is_list S' l h (xs @ brk S # zs) t" "brk S' = Suc (brk S)"
    "\<forall>a. a \<notin> set (h # xs @ zs @ [t]) \<and> a \<noteq> brk S \<longrightarrow> nodes S' a = nodes S a"
    "\<forall>l'. l' \<noteq> l \<longrightarrow> objs S' l' = objs S l'"
    unfolding sp(2) by blast
  have "is_list S' l' h' bs t'"
    using B disj
  proof (rule other_kept)
    show "\<forall>a. a \<notin> set (h # as @ [t]) \<and> a < brk S \<longrightarrow> nodes S' a = nodes S a"
      using S'(4) by (simp add: sp(1))
    show "brk S \<le> brk S'" using S'(3) by simp
    show "objs S' l' = objs S l'" using S'(5) ll by simp
  qed
  then show ?thesis
    using S'(1,2) by (intro exI[of _ S'] exI[of _ "xs @ brk S # zs"] exI) (simp add: sp(1))
qed

lemma erase_preserves:
  assumes A: "is_list S l h as t" and B: "is_list S l' h' bs t'" and ll: "l \<noteq> l'"
    and disj: "set (h # as @ [t]) \<inter> set (h' # bs @ [t']) = {}"
    and p: "p \<in> set as"
  shows "\<exists>S' it as'. list_erase S l \<lparr>cur = Some p, owner = Some l\<rparr> = Inr (it, S') \<and>
              is_list S' l h as' t \<and> Suc (length as') = length as \<and>
              is_list S' l' h' bs t'"
proof -
  from p obtain xs zs where sp: "as = xs @ p # zs" by (meson split_list)
  from A have "is_list S l h (xs @ p # zs) t" by (simp add: sp)
  from list_erase_ok[OF this] obtain S' where S':
    "list_erase S l \<lparr>cur = Some p, owner = Some l\<rparr> =
                 Inr (\<lparr>cur = Some (hd (zs @ [t])), owner = Some l\<rparr>, S')"
    "is_list S' l h (xs @ zs) t" "brk S' = brk S"
    "\<forall>a. a \<notin> set (h # xs @ p # zs @ [t]) \<longrightarrow> nodes S' a = nodes S a"
    "\<forall>l'. l' \<noteq> l \<longrightarrow> objs S' l' = objs S l'"
    by blast
  have "is_list S' l' h' bs t'"
    using B disj
  proof (rule other_kept)
    show "\<forall>a. a \<notin> set (h # as @ [t]) \<and> a < brk S \<longrightarrow> nodes S' a = nodes S a"
      using S'(4) by (simp add: sp)
    show "brk S \<le> brk S'" using S'(3) by simp
    show "objs S' l' = objs S l'" using S'(5) ll by simp
  qed
  then show ?thesis
    using S'(1,2) by (intro exI[of _ S'] exI[of _ "xs @ zs"] exI) (simp add: sp)
qed

lemma push_back_preserves:
  assumes A: "is_list S l h as t" and B: "is_list S l' h' bs t'" and ll: "l \<noteq> l'"
    and disj: "set (h # as @ [t]) \<inter> set (h' # bs @ [t']) = {}"
  shows "\<exists>S'. list_push_back S l v = Inr S' \<and> is_list S' l h (as @ [brk S]) t \<and>
              is_list S' l' h' bs t'"
proof -
  from list_push_back_ok[OF A, of v] obtain S' where S':
    "list_push_back S l v = Inr S'" "is_list S' l h (as @ [brk S]) t" "brk S' = Suc (brk S)"
    "\<forall>a. a \<notin> set (h # as @ [t]) \<and> a \<noteq> brk S \<longrightarrow> nodes S' a = nodes S a"
    "\<forall>l'. l' \<noteq> l \<longrightarrow> objs S' l' = objs S l'"
    by blast
  have "is_list S' l' h' bs t'"
    using B disj
  proof (rule other_kept)
    show "\<forall>a. a \<notin> set (h # as @ [t]) \<and> a < brk S \<longrightarrow> nodes S' a = nodes S a"
      using S'(4) by simp
    show "brk S \<le> brk S'" using S'(3) by simp
    show "objs S' l' = objs S l'" using S'(5) ll by simp
  qed
  then show ?thesis using S'(1,2) by blast
qed

lemma push_front_preserves:
  assumes A: "is_list S l h as t" and B: "is_list S l' h' bs t'" and ll: "l \<noteq> l'"
    and disj: "set (h # as @ [t]) \<inter> set (h' # bs @ [t']) = {}"
  shows "\<exists>S'. list_push_front S l v = Inr S' \<and> is_list S' l h (brk S # as) t \<and>
              is_list S' l' h' bs t'"
proof -
  from list_push_front_ok[OF A, of v] obtain S' where S':
    "list_push_front S l v = Inr S'" "is_list S' l h (brk S # as) t" "brk S' = Suc (brk S)"
    "\<forall>a. a \<notin> set (h # as @ [t]) \<and> a \<noteq> brk S \<longrightarrow> nodes S' a = nodes S a"
    "\<forall>l'. l' \<noteq> l \<longrightarrow> objs S' l' = objs S l'"
    by blast
  have "is_list S' l' h' bs t'"
    using B disj
  proof (rule other_kept)
    show "\<forall>a. a \<notin> set (h # as @ [t]) \<and> a < brk S \<longrightarrow> nodes S' a = nodes S a"
      using S'(4) by simp
    show "brk S \<le> brk S'" using S'(3) by simp
    show "objs S' l' = objs S l'" using S'(5) ll by simp
  qed
  then show ?thesis using S'(1,2) by blast
qed

lemma pop_back_preserves:
  assumes A: "is_list S l h as t" and B: "is_list S l' h' bs t'" and ll: "l \<noteq> l'"
    and disj: "set (h # as @ [t]) \<inter> set (h' # bs @ [t']) = {}"
    and ne: "as \<noteq> []"
  shows "\<exists>S'. list_pop_back S l = Inr S' \<and> is_list S' l h (butlast as) t \<and>
              is_list S' l' h' bs t'"
proof -
  have sp: "as = butlast as @ [last as]" using ne by simp
  from A have "is_list S l h (butlast as @ [last as]) t" using sp by simp
  from list_pop_back_ok[OF this] obtain S' where S':
    "list_pop_back S l = Inr S'" "is_list S' l h (butlast as) t" "brk S' = brk S"
    "\<forall>a. a \<notin> set (h # butlast as @ [last as, t]) \<longrightarrow> nodes S' a = nodes S a"
    "\<forall>l'. l' \<noteq> l \<longrightarrow> objs S' l' = objs S l'"
    by blast
  have cells: "h # butlast as @ [last as, t] = h # as @ [t]" using sp by (metis append.assoc append_Cons append_Nil)
  have "is_list S' l' h' bs t'"
    using B disj
  proof (rule other_kept)
    show "\<forall>a. a \<notin> set (h # as @ [t]) \<and> a < brk S \<longrightarrow> nodes S' a = nodes S a"
      using S'(4) unfolding cells by blast
    show "brk S \<le> brk S'" using S'(3) by simp
    show "objs S' l' = objs S l'" using S'(5) ll by simp
  qed
  then show ?thesis using S'(1,2) by blast
qed

lemma pop_front_preserves:
  assumes A: "is_list S l h as t" and B: "is_list S l' h' bs t'" and ll: "l \<noteq> l'"
    and disj: "set (h # as @ [t]) \<inter> set (h' # bs @ [t']) = {}"
    and ne: "as \<noteq> []"
  shows "\<exists>S'. list_pop_front S l = Inr S' \<and> is_list S' l h (tl as) t \<and>
              is_list S' l' h' bs t'"
proof -
  have sp: "as = hd as # tl as" using ne by simp
  from A have "is_list S l h (hd as # tl as) t" using sp by simp
  from list_pop_front_ok[OF this] obtain S' where S':
    "list_pop_front S l = Inr S'" "is_list S' l h (tl as) t" "brk S' = brk S"
    "\<forall>a. a \<notin> set (h # hd as # tl as @ [t]) \<longrightarrow> nodes S' a = nodes S a"
    "\<forall>l'. l' \<noteq> l \<longrightarrow> objs S' l' = objs S l'"
    by blast
  have cells: "h # hd as # tl as @ [t] = h # as @ [t]" using sp by (metis append_Cons)
  have "is_list S' l' h' bs t'"
    using B disj
  proof (rule other_kept)
    show "\<forall>a. a \<notin> set (h # as @ [t]) \<and> a < brk S \<longrightarrow> nodes S' a = nodes S a"
      using S'(4) unfolding cells by blast
    show "brk S \<le> brk S'" using S'(3) by simp
    show "objs S' l' = objs S l'" using S'(5) ll by simp
  qed
  then show ?thesis using S'(1,2) by blast
qed

lemma clear_preserves:
  assumes A: "is_list S l h as t" and B: "is_list S l' h' bs t'" and ll: "l \<noteq> l'"
    and disj: "set (h # as @ [t]) \<inter> set (h' # bs @ [t']) = {}"
  shows "\<exists>S'. list_clear S l = Some (Inr S') \<and> is_list S' l h [] t \<and> is_list S' l' h' bs t'"
proof -
  from list_clear_ok[OF A] obtain S' where S':
    "list_clear S l = Some (Inr S')" "is_list S' l h [] t"
    "\<forall>a. a \<notin> set (h # as @ [t]) \<longrightarrow> nodes S' a = nodes S a"
    "brk S' = brk S" "\<forall>k. k \<noteq> l \<longrightarrow> objs S' k = objs S k"
    by blast
  have "is_list S' l' h' bs t'"
    using B disj
  proof (rule other_kept)
    show "\<forall>a. a \<notin> set (h # as @ [t]) \<and> a < brk S \<longrightarrow> nodes S' a = nodes S a"
      using S'(3) by blast
    show "brk S \<le> brk S'" using S'(4) by simp
    show "objs S' l' = objs S l'" using S'(5) ll by simp
  qed
  then show ?thesis using S'(1,2) by blast
qed

lemma sort_preserves:
  fixes S :: "'a::ord state"
  assumes A: "is_list S l h as t" and B: "is_list S l' h' bs t'" and ll: "l \<noteq> l'"
    and disj: "set (h # as @ [t]) \<inter> set (h' # bs @ [t']) = {}"
    and perm: "\<forall>c xs. mset (sort_fn c xs) = mset xs"
  shows "\<exists>S' as'. list_sort sort_fn S l = Some (Inr S') \<and> is_list S' l h as' t \<and>
              mset as' = mset as \<and> vl S' = vl S \<and> is_list S' l' h' bs t'"
proof -
  from list_sort_ok[OF A perm] obtain S' as' where S':
    "list_sort sort_fn S l = Some (Inr S')" "is_list S' l h as' t" "mset as' = mset as"
    "vl S' = vl S" "brk S' = brk S" "objs S' = objs S"
    "\<forall>a. a \<notin> set (h # as @ [t]) \<longrightarrow> nodes S' a = nodes S a"
    by blast
  have "is_list S' l' h' bs t'"
    using B disj
  proof (rule other_kept)
    show "\<forall>a. a \<notin> set (h # as @ [t]) \<and> a < brk S \<longrightarrow> nodes S' a = nodes S a"
      using S'(7) by blast
    show "brk S \<le> brk S'" using S'(5) by simp
    show "objs S' l' = objs S l'" using S'(6) by simp
  qed
  then show ?thesis using S'(1-4) by blast
qed

lemma merge_preserves:
  fixes S :: "'a::ord state"
  assumes A: "is_list S l h as t" and B: "is_list S l' h' bs t'" and ll: "l \<noteq> l'"
    and disj: "set (h # as @ [t]) \<inter> set (h' # bs @ [t']) = {}"
  shows "\<exists>S' cs. list_merge S l l' = Some (Inr S') \<and> is_list S' l h cs t \<and>
              mset cs = mset as + mset bs \<and> vl S' = vl S \<and> is_list S' l' h' [] t'"
proof -
  define f where "f = (\<lambda>c. the (vl S c))"
  have "list_all (\<lambda>a. vl S a \<noteq> None) as" "list_all (\<lambda>a. vl S a \<noteq> None) bs"
    using A B by (auto simp: is_list_def split: option.splits)
  then have vals: "\<forall>c\<in>set as \<union> set bs. vl S c = Some (f c)"
    by (auto simp: f_def list_all_iff)
  from list_merge_ok[where f = f, OF A B ll disj vals] obtain S' where S':
    "list_merge S l l' = Some (Inr S')" "is_list S' l h (stable_merge f as bs) t"
    "is_list S' l' h' [] t'" "vl S' = vl S"
    by blast
  show ?thesis
    using S' mset_stable_merge[of f as bs] by blast
qed

lemma reverse_preserves:
  assumes A: "is_list S l h as t" and B: "is_list S l' h' bs t'" and ll: "l \<noteq> l'"
    and disj: "set (h # as @ [t]) \<inter> set (h' # bs @ [t']) = {}"
  shows "\<exists>S'. list_reverse S l = Inr S' \<and> is_list S' l h as t \<and> is_list S' l' h' bs t'"
proof -
  define vs where "vs = map (\<lambda>c. the (vl S c)) as"
  have "list_all (\<lambda>a. vl S a \<noteq> None) as"
    using A by (auto simp: is_list_def split: option.splits)
  then have ho: "holds S as vs" by (auto simp: holds_def vs_def list_all_iff)
  from list_reverse_ok[OF A ho] obtain S' where S':
    "list_reverse S l = Inr S'" "is_list S' l h as t" "alive S' = alive S" "nxt S' = nxt S"
    "prv S' = prv S" "objs S' = objs S" "brk S' = brk S" "\<forall>a. a \<notin> set as \<longrightarrow> vl S' a = vl S a"
    by blast
  have "is_list S' l' h' bs t'"
    using B disj
  proof (rule other_kept)
    show "\<forall>a. a \<notin> set (h # as @ [t]) \<and> a < brk S \<longrightarrow> nodes S' a = nodes S a"
      using S'(3-5,8) by (auto intro!: node_eqI)
    show "brk S \<le> brk S'" using S'(7) by simp
    show "objs S' l' = objs S l'" using S'(6) by simp
  qed
  then show ?thesis using S'(1,2) by blast
qed

lemma unique_preserves:
  assumes A: "is_list S l h as t" and B: "is_list S l' h' bs t'" and ll: "l \<noteq> l'"
    and disj: "set (h # as @ [t]) \<inter> set (h' # bs @ [t']) = {}"
  shows "\<exists>S' as'. list_unique ne S l = Some (Inr S') \<and> is_list S' l h as' t \<and>
              set as' \<subseteq> set as \<and> is_list S' l' h' bs t'"
proof -
  define f where "f = (\<lambda>c. the (vl S c))"
  define R where "R = (\<lambda>a b. \<not> ne (f a) (f b))"
  have "list_all (\<lambda>a. vl S a \<noteq> None) as"
    using A by (auto simp: is_list_def split: option.splits)
  then have vals: "\<forall>a\<in>set as. vl S a = Some (f a)"
    by (auto simp: f_def list_all_iff)
  from list_unique_ok[OF A vals R_def] obtain S' where S':
    "list_unique ne S l = Some (Inr S')" "is_list S' l h (keep_firsts R as) t"
    "\<forall>a. a \<notin> set (h # as @ [t]) \<longrightarrow> nodes S' a = nodes S a"
    "brk S' = brk S" "\<forall>l'. l' \<noteq> l \<longrightarrow> objs S' l' = objs S l'"
    by blast
  have "is_list S' l' h' bs t'"
    using B disj
  proof (rule other_kept)
    show "\<forall>a. a \<notin> set (h # as @ [t]) \<and> a < brk S \<longrightarrow> nodes S' a = nodes S a"
      using S'(3) by blast
    show "brk S \<le> brk S'" using S'(4) by simp
    show "objs S' l' = objs S l'" using S'(5) ll by simp
  qed
  then show ?thesis using S'(1,2) set_keep_firsts[of R as] by blast
qed



text \<open>
  Without the condition on the iterator the invariant is not preserved. After
  \<^verbatim>\<open>a.merge(b)\<close> with \<open>a = [5]\<close> and \<open>b = [3]\<close> both lists satisfy the invariant, and an
  iterator that \<^verbatim>\<open>b.begin()\<close> returned before the merge still has \<open>b\<close> as its owner
  while its node is linked into \<open>a\<close>. \<^verbatim>\<open>b.insert\<close> of this iterator links the new node
  into \<open>a\<close> and increments the count of \<open>b\<close>: afterwards \<open>b\<close> has count 1 and no node
  between its sentinels, and \<open>a\<close> has count 2 and three nodes.
\<close>

lemma stale_insert:
  "list_insert store_merged 1 \<lparr>cur = Some 5, owner = Some 1\<rparr> 9 =
     Inr (\<lparr>cur = Some 6, owner = Some 1\<rparr>, store_stale_insert)"
  unfolding store_merged_def store_stale_insert_def
  by (simp add: list_insert_def new_node_def get_prev_def get_next_def
        node_at_def set_prev_def set_next_def put_node_def put_list_def
        inc_sz_def link_before_def Let_def
      del: get_next_alive get_prev_alive set_next_alive set_prev_alive
        get_dead put_list_live new_node_eq)
    (auto simp: fun_eq_iff)

lemma stale_insert_no_list: "\<not> is_list store_stale_insert 1 h as t"
proof
  assume "is_list store_stale_insert 1 h as t"
  then obtain L where L: "objs store_stale_insert 1 = Some L" "head L = Some h" "tail L = Some t"
    "sz L = length as" "chain store_stale_insert h as t"
    by (rule is_listD)
  from L(1-4) have ht: "h = 3" "t = 4" "length as = 1"
    by (auto simp: store_stale_insert_def)
  then obtain a where a: "as = [a]" by (auto simp: length_Suc_conv)
  have "nxt store_stale_insert 3 = Some 4" by (simp add: store_stale_insert_def nxt_def)
  then show False using L(5) by (auto simp: chain_def ht a)
qed


end
